theory Spec2Isabelle
  imports Complex_Main "HOL-Library.Word"
begin

unbundle bit_operations_syntax

section \<open>Data model of PythonVersion.py\<close>

text \<open>
  A byte of a \<^verbatim>\<open>bytes\<close> or \<^verbatim>\<open>bytearray\<close> object is an 8-bit word; read as a Python
  integer it is \<open>uint b\<close>. Python integers are unbounded and are modelled by \<open>int\<close>: the
  bitwise operators \<^verbatim>\<open>&\<close>, \<^verbatim>\<open>|\<close>, \<^verbatim>\<open>>>\<close> are \<open>AND\<close>, \<open>OR\<close>, \<open>drop_bit\<close>, which on
  \<open>int\<close> are the operations on infinite two's complement, as in Python. Python floats are
  modelled by real numbers: the model has no rounding error, no infinity and no NaN.
  Exceptions are values: a function that can raise returns \<open>error + 'a\<close>.
\<close>

type_synonym byte = "8 word"

datatype error =
    ValueError_negative_shift_count
  | ValueError_math_domain_error

definition bind_err :: "error + 'a \<Rightarrow> ('a \<Rightarrow> error + 'b) \<Rightarrow> error + 'b" where
  "bind_err m f = (case m of Inl e \<Rightarrow> Inl e | Inr x \<Rightarrow> f x)"

definition FLOAT16_DIVISOR :: real where "FLOAT16_DIVISOR = 1000000"
definition INT16_DIVISOR :: real where "INT16_DIVISOR = 2"
definition RECORD_SIZE_EXPECTED :: int where "RECORD_SIZE_EXPECTED = 68"
definition MIN_RECORD_BYTES :: nat where "MIN_RECORD_BYTES = 12"
definition SCAN_CHUNK_SIZE :: nat where "SCAN_CHUNK_SIZE = 256 * 1024"
definition RECORD_BUFFER_SIZE :: nat where "RECORD_BUFFER_SIZE = 70"

text \<open>\<^verbatim>\<open>sys.maxsize\<close> of a 64-bit CPython.\<close>
definition sys_maxsize :: int where "sys_maxsize = 2 ^ 63 - 1"

text \<open>\<^verbatim>\<open>buf[off]\<close> as a Python integer.\<close>
definition u8 :: "byte list \<Rightarrow> nat \<Rightarrow> int" where
  "u8 buf off = uint (buf ! off)"

definition u16_le :: "byte list \<Rightarrow> nat \<Rightarrow> int" where
  "u16_le buf off = u8 buf off OR push_bit 8 (u8 buf (off + 1))"

definition i16_le :: "byte list \<Rightarrow> nat \<Rightarrow> int" where
  "i16_le buf off =
     (let v = u16_le buf off in if v AND 0x8000 \<noteq> 0 then v - 0x10000 else v)"

text \<open>\<^verbatim>\<open>a << n\<close>: Python raises ValueError (negative shift count) when \<open>n < 0\<close>.\<close>
definition py_lshift :: "int \<Rightarrow> int \<Rightarrow> error + int" where
  "py_lshift a n =
     (if n < 0 then Inl ValueError_negative_shift_count else Inr (push_bit (nat n) a))"

text \<open>\<^verbatim>\<open>math.sqrt(x)\<close> of an integer: ValueError (math domain error) when \<open>x < 0\<close>.\<close>
definition py_sqrt :: "int \<Rightarrow> error + real" where
  "py_sqrt x = (if x < 0 then Inl ValueError_math_domain_error else Inr (sqrt (of_int x)))"

subsection \<open>Printing integers\<close>

definition digit_char :: "nat \<Rightarrow> char" where
  "digit_char d = ''0123456789'' ! d"

fun str_nat :: "nat \<Rightarrow> string" where
  "str_nat n = (if n < 10 then [digit_char n] else str_nat (n div 10) @ [digit_char (n mod 10)])"

declare str_nat.simps [simp del]

text \<open>\<^verbatim>\<open>str(i)\<close>.\<close>
definition str_int :: "int \<Rightarrow> string" where
  "str_int i = (if i < 0 then ''-'' @ str_nat (nat (- i)) else str_nat (nat i))"

text \<open>\<^verbatim>\<open>f"{i:0{width}d}"\<close>: zero padding after the sign, to \<open>width\<close> characters in all.\<close>
definition format_0d :: "nat \<Rightarrow> int \<Rightarrow> string" where
  "format_0d width i =
     (let ds = str_nat (nat \<bar>i\<bar>) in
      if i < 0 then ''-'' @ replicate (width - 1 - length ds) (CHR ''0'') @ ds
      else replicate (width - length ds) (CHR ''0'') @ ds)"

subsection \<open>Odd-tie formatter\<close>

text \<open>
  The last two statements of \<^verbatim>\<open>format_fixed_odd\<close>, \<^verbatim>\<open>result = rounded * sign / scale\<close> and
  \<^verbatim>\<open>f"{result:.{decimals}f}"\<close>: \<open>result\<close> is the decimal number whose digits are those of the
  integer \<open>rounded\<close>, with \<open>decimals\<close> of them after the point, and the format prints it
  back. The sign printed is the sign bit of the float, which is that of \<open>sign\<close> (so
  \<open>-0.0\<close> prints as \<open>-0.00\<close>).
\<close>
definition format_f :: "bool \<Rightarrow> nat \<Rightarrow> nat \<Rightarrow> string" where
  "format_f negative rounded decimals =
     (if negative then ''-'' else '''') @ str_nat (rounded div 10 ^ decimals) @
     (if decimals = 0 then ''''
      else ''.'' @ format_0d decimals (int (rounded mod 10 ^ decimals)))"

definition format_fixed_odd :: "real \<Rightarrow> nat \<Rightarrow> string" where
  "format_fixed_odd value decimals =
     (let scale = 10 ^ decimals;
          scaled = value * scale;
          sign = (if scaled \<ge> 0 then 1 else - 1 :: real);
          abs_scaled = \<bar>scaled\<bar>;
          fl = \<lfloor>abs_scaled\<rfloor>;
          frac = abs_scaled - of_int fl;
          tie_eps = 1 / 10 ^ 7;
          rounded =
            (if frac > 1 / 2 + tie_eps then fl + 1
             else if frac < 1 / 2 - tie_eps then fl
             else if fl mod 2 = 0 then fl + 1 else fl)
      in format_f (sign < 0) (nat rounded) decimals)"

subsection \<open>Field codec\<close>

definition to_i16 :: "int \<Rightarrow> int" where
  "to_i16 u = (let u' = u AND 0xFFFF in if u' AND 0x8000 \<noteq> 0 then u' - 0x10000 else u')"

definition sv_from_float16 :: "int \<Rightarrow> error + int" where
  "sv_from_float16 value_i16 =
     (let result = value_i16;
          v2 = drop_bit 11 (value_i16 AND 0xFFFF) - 1
      in if v2 \<le> 0x13 then
           (let v3 = value_i16 AND 0x7FF;
                v3' = v3 OR 0x800
            in py_lshift v3' v2)
         else Inr result)"

definition is_special_value :: "int \<Rightarrow> bool" where
  "is_special_value v = (- 4 \<le> v \<and> v \<le> - 1)"

definition is_overload :: "int \<Rightarrow> bool" where
  "is_overload v = (v > 99999999)"

definition sv_is_value_valid :: "int \<Rightarrow> error + int" where
  "sv_is_value_valid value_u16 =
     (let v1 = drop_bit 11 value_u16 - 1 in
      if v1 > 0x13 then
        (let result = to_i16 value_u16 in
         if (result AND 0xFFFFFFFF) < 0xFFFFFFFC then Inr 0 else Inr result)
      else
        (let v2 = value_u16 AND 0x7FF;
             v2' = (v2 AND 0xFF) OR push_bit 8 ((drop_bit 8 v2 OR 8) AND 0xFFFF)
         in bind_err (py_lshift v2' v1) (\<lambda>result.
              if ((result + 4) AND 0xFFFFFFFF) > 3 then
                (let valid = (result \<le> 99999999);
                     result' = sys_maxsize
                 in if valid then Inr 0 else Inr result')
              else Inr result)))"

definition get_signal_quality :: "int \<Rightarrow> string" where
  "get_signal_quality signal_strength_raw =
     (if signal_strength_raw = 0 then ''Unknown''
      else if signal_strength_raw > 23 then ''Excellent''
      else if signal_strength_raw > 15 then ''Good''
      else if signal_strength_raw > 7 then ''Low''
      else ''Bad'')"

definition format_geophone :: "int \<Rightarrow> string" where
  "format_geophone value_u16 =
     (let typ = value_u16 AND 0xC000;
          number = value_u16 AND 0x3FFF
      in if typ = 0x4000 then ''TDA'' @ format_0d 5 number
         else if typ = 0x8000 then ''TDS'' @ format_0d 5 number
         else if typ = 0xC000 then ''???00000''
         else ''unknown'' @ format_0d 5 number)"

definition datetime_valid :: "int \<Rightarrow> int \<Rightarrow> int \<Rightarrow> int \<Rightarrow> int \<Rightarrow> int \<Rightarrow> bool" where
  "datetime_valid second minute hour day month year_yy =
     (if second > 59 \<or> minute > 59 \<or> hour > 23 then False
      else if year_yy > 99 then False
      else if month < 1 \<or> month > 12 then False
      else
        (let max_day =
           (if month \<in> set [1, 3, 5, 7, 8, 10, 12] then 31
            else if month \<in> set [4, 6, 9, 11] then 30
            else if year_yy AND 3 = 0 then 29 else 28)
         in 1 \<le> day \<and> day \<le> max_day))"

text \<open>
  \<^verbatim>\<open>read_type <= 9 and record_size == 68 and (((1 << read_type) & 0x45) != 0)\<close>:
  \<^verbatim>\<open>and\<close> evaluates its right operand only when the left one is true, so the shift is
  computed (and can raise) only then.
\<close>
definition is_valid_to_process :: "int \<Rightarrow> int \<Rightarrow> error + bool" where
  "is_valid_to_process record_size read_type =
     (if read_type \<le> 9 \<and> record_size = 68
      then bind_err (py_lshift 1 read_type) (\<lambda>m. Inr (m AND 0x45 \<noteq> 0))
      else Inr False)"

definition get_peak_type_cat :: "int \<Rightarrow> string" where
  "get_peak_type_cat peak_type =
     (if peak_type = 0 then ''vcatnone''
      else if peak_type = 1 then ''vcat1''
      else if peak_type = 2 then ''vcat2''
      else if peak_type = 3 then ''vcat3''
      else ''vcat'')"

definition status_to_string :: "int \<Rightarrow> string" where
  "status_to_string status =
     (if status = - 1 then ''DISCONNECTED''
      else if status = - 2 then ''DATA INVALID''
      else if status = - 3 then ''NO DATA''
      else if status = - 4 then ''NOT RESPONDING''
      else if status = sys_maxsize then ''OVERLOAD''
      else '''')"

definition get_overall_status :: "int \<Rightarrow> int \<Rightarrow> int \<Rightarrow> int" where
  "get_overall_status x y z =
     (if x = sys_maxsize \<or> y = sys_maxsize \<or> z = sys_maxsize then sys_maxsize
      else if x \<noteq> 0 then x
      else if y \<noteq> 0 then y
      else if z \<noteq> 0 then z
      else 0)"

definition axis_status :: "byte list \<Rightarrow> nat \<Rightarrow> error + int" where
  "axis_status rec off =
     bind_err (sv_is_value_valid (u16_le rec off)) (\<lambda>s.
     bind_err (if s = 0 then sv_is_value_valid (u16_le rec (off + 6)) else Inr s) (\<lambda>s.
     bind_err (if s = 0 then sv_is_value_valid (u16_le rec (off + 8)) else Inr s) (\<lambda>s.
     (if s = 0 then sv_is_value_valid (u16_le rec (off + 10)) else Inr s))))"

subsection \<open>The reader: configuration and counters\<close>

text \<open>
  The attributes of \<^verbatim>\<open>VifReader\<close>: the five constructor arguments, which no method
  changes, and the counters. \<^verbatim>\<open>today\<close> stands for the value of
  \<^verbatim>\<open>datetime.date.today()\<close> as (year, month, day). The output stream is the list of the
  strings written to it.
\<close>

record config =
  print_header :: bool
  print_number :: bool
  filter_today :: bool
  long_format :: bool
  date_filter :: "string option"

record reader_state =
  is_kb_mode :: bool
  records_processed :: int
  records_skipped :: int
  record_counter :: int

datatype DirData =
  DirData (dd_v: string) (dd_kb: string) (dd_ft: string) (dd_u: string)
          (dd_a: string) (dd_cv: string) (dd_cf: string) (dd_state: string)

definition format_float16 :: "config \<Rightarrow> int \<Rightarrow> error + string" where
  "format_float16 cfg value_u16 =
     bind_err (sv_from_float16 (to_i16 value_u16)) (\<lambda>int_val.
       if is_special_value int_val \<or> is_overload int_val then Inr ''''
       else
         (let result = of_int int_val / FLOAT16_DIVISOR
          in Inr (format_fixed_odd result (if long_format cfg then 4 else 2))))"

definition format_int16 :: "config \<Rightarrow> int \<Rightarrow> string" where
  "format_int16 cfg value_i16 =
     (if is_special_value value_i16 then ''''
      else
        (let result = of_int value_i16 / INT16_DIVISOR
         in format_fixed_odd result (if long_format cfg then 4 else 1)))"

definition parse_direction :: "config \<Rightarrow> byte list \<Rightarrow> nat \<Rightarrow> bool \<Rightarrow> int \<Rightarrow> error + DirData" where
  "parse_direction cfg rec off is_extended status =
     (if status \<noteq> 0 then Inr (DirData '''' '''' '''' '''' '''' '''' '''' (status_to_string status))
      else
        (let v_raw = u16_le rec off;
             kbzc_raw = i16_le rec (off + 2);
             ft_raw = i16_le rec (off + 4);
             u_raw = u16_le rec (off + 6);
             a_raw = u16_le rec (off + 8);
             cv_raw = u16_le rec (off + 10);
             cf_raw = i16_le rec (off + 12)
         in bind_err (format_float16 cfg v_raw) (\<lambda>v.
            bind_err
              (if is_extended then
                 bind_err (sv_from_float16 kbzc_raw) (\<lambda>int_val.
                 bind_err (py_sqrt int_val) (\<lambda>root.
                   (let kb_val = root * (1 / 100);
                        kb_val' = (if kb_val \<le> 1 / 10 then 0 else kb_val)
                    in Inr (format_fixed_odd kb_val' (if long_format cfg then 4 else 2)))))
               else if kbzc_raw \<le> 0 then Inr ''''
               else
                 (let zc = 1024 / of_int kbzc_raw
                  in Inr (format_fixed_odd zc (if long_format cfg then 4 else 2))))
              (\<lambda>kb.
            (let ft = format_int16 cfg ft_raw in
            bind_err (format_float16 cfg u_raw) (\<lambda>u.
            bind_err (format_float16 cfg a_raw) (\<lambda>a.
            bind_err (format_float16 cfg cv_raw) (\<lambda>cv.
            (let cf = format_int16 cfg cf_raw
             in Inr (DirData v kb ft u a cv cf ''''))))))))))"

subsection \<open>Decoding one record\<close>

definition join_comma :: "string list \<Rightarrow> string" where
  "join_comma xs = (case xs of [] \<Rightarrow> '''' | y # ys \<Rightarrow> y @ concat (map (\<lambda>z. '','' @ z) ys))"

text \<open>\<^verbatim>\<open>f"\"{v}\""\<close>: the field between two double quotes.\<close>
definition quoted :: "string \<Rightarrow> string" where
  "quoted v = [CHR 0x22] @ v @ [CHR 0x22]"

definition dir_fields :: "DirData \<Rightarrow> string list" where
  "dir_fields d = [dd_state d, dd_v d, dd_kb d, dd_ft d, dd_u d, dd_a d, dd_cv d, dd_cf d]"

text \<open>
  Lines 347 to 432 of \<^verbatim>\<open>process_record\<close>: the decoding of an accepted record and the
  text of its CSV row, in the order the source evaluates them.
\<close>
definition csv_row :: "config \<Rightarrow> byte list \<Rightarrow> string \<Rightarrow> string \<Rightarrow> int \<Rightarrow> int \<Rightarrow> error + string" where
  "csv_row cfg rec date_s time_s record_type record_size =
     (let is_extended = (record_type = 0x8A);
          counter =
            (if record_size > 0x43 \<and> length rec \<ge> 67
             then str_int (u8 rec 64 + push_bit 8 (u8 rec 65 + push_bit 8 (u8 rec 66)))
             else '''')
      in
      bind_err (axis_status rec 14) (\<lambda>x_status.
      bind_err (axis_status rec 28) (\<lambda>y_status.
      bind_err (axis_status rec 42) (\<lambda>z_status.
      (let overall_status = get_overall_status x_status y_status z_status in
      bind_err (parse_direction cfg rec 14 is_extended x_status) (\<lambda>x_data.
      bind_err (parse_direction cfg rec 28 is_extended y_status) (\<lambda>y_data.
      bind_err (parse_direction cfg rec 42 is_extended z_status) (\<lambda>z_data.
      (let temperature = of_int (u8 rec 56) * (1 / 2) - 55 / 2 :: real;
           voltage = of_int (u8 rec 57) * (1 / 100) + 245 / 100 :: real;
           memory_use = u8 rec 58 AND 0x7F;
           usb_powered = drop_bit 7 (u8 rec 58);
           ss_raw = u8 rec 59 AND 0x1F;
           signal_strength = (if ss_raw \<noteq> 0 then str_int (2 * ss_raw - 113) else '''');
           signal_quality = get_signal_quality ss_raw;
           transmitted = (if u8 rec 59 AND 0x20 \<noteq> 0 then 1 else 0 :: int);
           all_transmitted = (if u8 rec 59 AND 0x40 \<noteq> 0 then 1 else 0 :: int);
           peak_type = u8 rec 60 AND 3;
           peak_type_cat = get_peak_type_cat peak_type;
           code = (if u8 rec 60 AND 4 \<noteq> 0 then ''SBR'' else ''DIN'');
           error_code = u8 rec 61;
           geophone_sn = u16_le rec 62;
           geophone = format_geophone geophone_sn;
           clock_changed = drop_bit 6 (u8 rec 60);
           overall_state = status_to_string overall_status
       in
       bind_err (if overall_status \<noteq> 0 then Inr '''' else format_float16 cfg (u16_le rec 12))
         (\<lambda>overall_v.
       (let temp_s = format_fixed_odd temperature (if long_format cfg then 4 else 1);
            volt_s = format_fixed_odd voltage (if long_format cfg then 4 else 2);
            fields =
              [date_s, time_s] @ (if print_number cfg then [counter] else []) @
              [overall_state, overall_v] @
              dir_fields x_data @ dir_fields y_data @ dir_fields z_data @
              [temp_s, volt_s, str_int memory_use, str_int usb_powered, signal_strength,
               signal_quality, str_int transmitted, str_int all_transmitted, peak_type_cat,
               code, str_int error_code, geophone, str_int clock_changed]
        in Inr (join_comma (map quoted fields) @ [CHR 0x0A]))))))))))))"

text \<open>\<^verbatim>\<open>self.records_skipped += 1; return\<close>: one more skipped record, nothing written.\<close>
definition skipped :: "reader_state \<times> string list \<Rightarrow> reader_state \<times> string list" where
  "skipped s = ((fst s)\<lparr>records_skipped := records_skipped (fst s) + 1\<rparr>, snd s)"

text \<open>Lines 330 and 331: the date and time strings of a record.\<close>
definition date_string :: "byte list \<Rightarrow> string" where
  "date_string rec =
     (let day = u8 rec 9;
          month = u8 rec 10;
          year = 2000 + u8 rec 11
      in format_0d 4 year @ ''-'' @ format_0d 2 month @ ''-'' @ format_0d 2 day)"

definition time_string :: "byte list \<Rightarrow> string" where
  "time_string rec =
     (let second = u8 rec 6;
          minute = u8 rec 7;
          hour = u8 rec 8
      in format_0d 2 hour @ '':'' @ format_0d 2 minute @ '':'' @ format_0d 2 second)"

text \<open>
  Lines 344 to 432: the two counters and the row. The counters are incremented before
  the row is decoded; when the decoding raises, the exception leaves
  \<^verbatim>\<open>process_record\<close> and nothing is written.
\<close>
definition write_row ::
  "config \<Rightarrow> byte list \<Rightarrow> reader_state \<times> string list \<Rightarrow> error + reader_state \<times> string list" where
  "write_row cfg rec s =
     (let record_type = u8 rec 3;
          record_size = u16_le rec 4
      in bind_err (csv_row cfg rec (date_string rec) (time_string rec) record_type record_size)
           (\<lambda>line.
              Inr ((fst s)\<lparr>records_processed := records_processed (fst s) + 1,
                           record_counter := record_counter (fst s) + 1\<rparr>,
                   snd s @ [line])))"

text \<open>Lines 334 to 342: the two date filters, then the row.\<close>
definition filter_and_write ::
  "config \<Rightarrow> int \<times> int \<times> int \<Rightarrow> byte list \<Rightarrow> reader_state \<times> string list
     \<Rightarrow> error + reader_state \<times> string list" where
  "filter_and_write cfg today rec s =
     (let day = u8 rec 9;
          month = u8 rec 10;
          year = 2000 + u8 rec 11;
          date_s = date_string rec
      in if filter_today cfg then
           (if (year, month, day) \<noteq> today then Inr (skipped s) else write_row cfg rec s)
         else
           (case date_filter cfg of
              Some d \<Rightarrow> if date_s \<noteq> d then Inr (skipped s) else write_row cfg rec s
            | None \<Rightarrow> write_row cfg rec s))"

definition process_record ::
  "config \<Rightarrow> int \<times> int \<times> int \<Rightarrow> byte list \<Rightarrow> int \<Rightarrow> reader_state \<times> string list
     \<Rightarrow> error + reader_state \<times> string list" where
  "process_record cfg today rec read_type s =
     (let record_type = u8 rec 3;
          record_size = u16_le rec 4
      in bind_err (is_valid_to_process record_size read_type) (\<lambda>ok.
           if \<not> ok then Inr (skipped s)
           else if (record_type AND 0xFD) \<noteq> 0x88 then Inr (skipped s)
           else if record_size \<noteq> RECORD_SIZE_EXPECTED then Inr (skipped s)
           else if \<not> datetime_valid (u8 rec 6) (u8 rec 7) (u8 rec 8) (u8 rec 9) (u8 rec 10) (u8 rec 11)
           then Inr (skipped s)
           else filter_and_write cfg today rec s))"

section \<open>The stream scanner\<close>

text \<open>
  The local variables of \<^verbatim>\<open>process_records\<close> that \<^verbatim>\<open>ensure_bytes\<close> shares with it. The
  bytearray \<^verbatim>\<open>window\<close> is kept as its filled part \<^verbatim>\<open>window[0:window_len]\<close> (so
  \<^verbatim>\<open>window_len\<close> is \<open>length (window st)\<close>) and its capacity \<^verbatim>\<open>len(window)\<close>; the source
  reads the window only below \<^verbatim>\<open>window_len\<close>. The file is the list of the bytes not read
  yet: \<^verbatim>\<open>f.read(n)\<close> of a file opened in binary mode returns the next \<open>n\<close> bytes, or all
  that are left when fewer are.
\<close>

record scan_state =
  window :: "byte list"
  window_cap :: nat
  scan_idx :: nat
  window_start_pos :: nat
  file_rest :: "byte list"

text \<open>
  \<^verbatim>\<open>while new_size < required_index: new_size *= 2\<close>. The loop does not return from
  \<open>new_size = 0\<close>; not returning is the value \<open>None\<close>.
\<close>
partial_function (option) grow_size :: "nat \<Rightarrow> nat \<Rightarrow> nat option" where
  "grow_size new_size required_index =
     (if new_size < required_index then grow_size (new_size * 2) required_index
      else Some new_size)"

text \<open>
  Lines 225 to 231, the compaction: \<^verbatim>\<open>window[scan_idx:window_len]\<close> moves to the front of
  the window.
\<close>
definition compact_window :: "scan_state \<Rightarrow> scan_state" where
  "compact_window st =
     (if scan_idx st > 0
      then st\<lparr>window := drop (scan_idx st) (window st),
              window_start_pos := window_start_pos st + scan_idx st,
              scan_idx := 0\<rparr>
      else st)"

text \<open>Lines 233 to 239: the capacity of the window, doubled as needed when it is full.\<close>
definition new_capacity :: "scan_state \<Rightarrow> nat \<Rightarrow> nat option" where
  "new_capacity st required_index =
     (if length (window st) = window_cap st
      then grow_size (window_cap st * 2) required_index
      else Some (window_cap st))"

text \<open>
  \<^verbatim>\<open>ensure_bytes\<close>: one call of the function is one test of the \<^verbatim>\<open>while\<close> condition. The
  window is compacted, replaced by a bigger one when it is full, and filled from the file.
\<close>
function ensure_bytes :: "nat \<Rightarrow> scan_state \<Rightarrow> (bool \<times> scan_state) option" where
  "ensure_bytes required_index st =
     (if required_index > length (window st) then
        (let st1 = compact_window st
         in case new_capacity st1 required_index of
              None \<Rightarrow> None
            | Some cap \<Rightarrow>
                (let chunk = take (cap - length (window st1)) (file_rest st1) in
                 if chunk = [] then Some (False, st1\<lparr>window_cap := cap\<rparr>)
                 else ensure_bytes required_index
                        (st1\<lparr>window_cap := cap,
                             window := window st1 @ chunk,
                             file_rest := drop (length chunk) (file_rest st1)\<rparr>)))
      else Some (True, st))"
  by pat_completeness auto
termination
  by (relation "measure (\<lambda>(r, st). length (file_rest st))") (auto simp: compact_window_def)

declare ensure_bytes.simps [simp del]

text \<open>
  The marker search, lines 253 to 257: from \<open>i\<close>, the first index with \<^verbatim>\<open>VIB\<close> at it, or
  the first index with fewer than three bytes left in the window.
\<close>
function find_marker :: "byte list \<Rightarrow> nat \<Rightarrow> nat" where
  "find_marker w i =
     (if i + 2 < length w then
        (if w ! i = 0x56 \<and> w ! (i + 1) = 0x49 \<and> w ! (i + 2) = 0x42 then i
         else find_marker w (i + 1))
      else i)"
  by pat_completeness auto
termination
  by (relation "measure (\<lambda>(w, i). length w - i)") auto

declare find_marker.simps [simp del]

text \<open>
  Lines 250 to 269, the part of the loop body that looks for the next candidate: the
  loop is left (\<open>Stop\<close>), or goes round again from a new state (\<open>Retry\<close>, the
  \<^verbatim>\<open>continue\<close>), or a candidate is found at window index \<open>i\<close> with its \<open>advance\<close>.
\<close>
datatype scan_result = Stop | Retry scan_state | Found scan_state nat nat

text \<open>Line 267: \<^verbatim>\<open>MIN_RECORD_BYTES if record_size < MIN_RECORD_BYTES else record_size\<close>.\<close>
definition advance_of :: "nat \<Rightarrow> nat" where
  "advance_of record_size =
     (if record_size < MIN_RECORD_BYTES then MIN_RECORD_BYTES else record_size)"

definition next_record :: "scan_state \<Rightarrow> scan_result option" where
  "next_record st =
     (case ensure_bytes (scan_idx st + 3) st of
        None \<Rightarrow> None
      | Some (ok1, st1) \<Rightarrow>
          if \<not> ok1 then Some Stop
          else
            (let i = find_marker (window st1) (scan_idx st1) in
             if i + 2 \<ge> length (window st1) then Some (Retry (st1\<lparr>scan_idx := i\<rparr>))
             else
               (case ensure_bytes (i + MIN_RECORD_BYTES) st1 of
                  None \<Rightarrow> None
                | Some (ok2, st2) \<Rightarrow>
                    if \<not> ok2 then Some Stop
                    else
                      (let record_size =
                             nat (uint (window st2 ! (i + 4)) OR
                                  push_bit 8 (uint (window st2 ! (i + 5))));
                           advance = advance_of record_size
                       in case ensure_bytes (i + advance) st2 of
                            None \<Rightarrow> None
                          | Some (ok3, st3) \<Rightarrow>
                              if \<not> ok3 then Some Stop else Some (Found st3 i advance)))))"

definition get_read_type_from_delta :: "int \<Rightarrow> int" where
  "get_read_type_from_delta delta = (if delta = 68 then 2 else 5)"

text \<open>
  Lines 281 to 285: the candidate's bytes are copied over the front of the holding
  buffer and the rest of the buffer is set to zero.
\<close>
definition copy_record :: "byte list \<Rightarrow> byte list \<Rightarrow> nat \<Rightarrow> nat \<Rightarrow> byte list" where
  "copy_record last_record w i advance =
     (let copy_len = min advance (length last_record);
          lr1 = take copy_len (drop i w) @ drop copy_len last_record
      in if copy_len < length lr1
         then take copy_len lr1 @ replicate (length lr1 - copy_len) 0
         else lr1)"

subsection \<open>Progress of the scanner\<close>

text \<open>
  The facts the termination of the scanning loop rests on: \<^verbatim>\<open>ensure_bytes\<close> never gives
  bytes back to the file, and when it returns \<^verbatim>\<open>True\<close> it either changed nothing or read
  from the file.
\<close>

lemma compact_window_simps:
  "file_rest (compact_window st) = file_rest st" "window_cap (compact_window st) = window_cap st"
  by (simp_all add: compact_window_def)

text \<open>One round of \<^verbatim>\<open>ensure_bytes\<close> that reads from the file.\<close>
definition refill :: "scan_state \<Rightarrow> nat \<Rightarrow> scan_state" where
  "refill st cap =
     (let st1 = compact_window st;
          chunk = take (cap - length (window st1)) (file_rest st1)
      in st1\<lparr>window_cap := cap, window := window st1 @ chunk,
              file_rest := drop (length chunk) (file_rest st1)\<rparr>)"

lemma ensure_bytes_enough:
  "required_index \<le> length (window st) \<Longrightarrow> ensure_bytes required_index st = Some (True, st)"
  by (subst ensure_bytes.simps) simp

lemma ensure_bytes_round:
  assumes "length (window st) < required_index"
  shows "ensure_bytes required_index st =
     (case new_capacity (compact_window st) required_index of
        None \<Rightarrow> None
      | Some cap \<Rightarrow>
          if take (cap - length (window (compact_window st))) (file_rest st) = []
          then Some (False, (compact_window st)\<lparr>window_cap := cap\<rparr>)
          else ensure_bytes required_index (refill st cap))"
  using assms
  by (subst ensure_bytes.simps) (simp add: Let_def refill_def compact_window_simps split: option.splits)

lemma refill_rest:
  "take (cap - length (window (compact_window st))) (file_rest st) \<noteq> [] \<Longrightarrow>
     length (file_rest (refill st cap)) < length (file_rest st)"
  by (auto simp: refill_def Let_def compact_window_simps)

lemma ensure_bytes_rest_le:
  "ensure_bytes r st = Some (b, st') \<Longrightarrow> length (file_rest st') \<le> length (file_rest st)"
proof (induction "length (file_rest st)" arbitrary: st rule: less_induct)
  case less
  show ?case
  proof (cases "length (window st) < r")
    case False
    with less.prems show ?thesis by (simp add: ensure_bytes_enough)
  next
    case True
    from less.prems obtain cap where cap: "new_capacity (compact_window st) r = Some cap"
      by (auto simp: ensure_bytes_round [OF True] split: option.splits)
    show ?thesis
    proof (cases "take (cap - length (window (compact_window st))) (file_rest st) = []")
      case True
      with less.prems cap \<open>length (window st) < r\<close> show ?thesis
        by (auto simp: ensure_bytes_round compact_window_simps)
    next
      case False
      with less.prems cap True have "ensure_bytes r (refill st cap) = Some (b, st')"
        by (simp add: ensure_bytes_round)
      from less.hyps [OF refill_rest [OF False] this] refill_rest [OF False]
      show ?thesis by simp
    qed
  qed
qed

lemma ensure_bytes_True:
  "ensure_bytes r st = Some (True, st') \<Longrightarrow>
     r \<le> length (window st') \<and> (st' = st \<or> length (file_rest st') < length (file_rest st))"
proof (induction "length (file_rest st)" arbitrary: st rule: less_induct)
  case less
  show ?case
  proof (cases "length (window st) < r")
    case False
    with less.prems show ?thesis by (simp add: ensure_bytes_enough)
  next
    case True
    from less.prems obtain cap where cap: "new_capacity (compact_window st) r = Some cap"
      by (auto simp: ensure_bytes_round [OF True] split: option.splits)
    show ?thesis
    proof (cases "take (cap - length (window (compact_window st))) (file_rest st) = []")
      case True
      with less.prems cap \<open>length (window st) < r\<close> show ?thesis
        by (simp add: ensure_bytes_round)
    next
      case False
      with less.prems cap True have "ensure_bytes r (refill st cap) = Some (True, st')"
        by (simp add: ensure_bytes_round)
      from less.hyps [OF refill_rest [OF False] this] refill_rest [OF False]
      show ?thesis by auto
    qed
  qed
qed

lemma find_marker_ge: "i \<le> find_marker w i"
proof (induction w i rule: find_marker.induct)
  case (1 w i)
  then show ?case by (subst find_marker.simps) auto
qed

text \<open>
  The measure of the loop: the bytes left in the file, then the bytes of the window
  after the scan cursor.
\<close>
definition scan_measure :: "scan_state \<Rightarrow> nat \<times> nat" where
  "scan_measure st = (length (file_rest st), length (window st) - scan_idx st)"

definition scan_rel :: "(scan_state \<times> scan_state) set" where
  "scan_rel = inv_image (less_than <*lex*> less_than) scan_measure"

lemma wf_scan_rel: "wf scan_rel"
  unfolding scan_rel_def by (intro wf_inv_image wf_lex_prod wf_less_than)

lemma next_record_Retry:
  assumes "next_record st = Some (Retry st')"
  shows "(st', st) \<in> scan_rel"
proof -
  from assms obtain st1 where
    e1: "ensure_bytes (scan_idx st + 3) st = Some (True, st1)" and
    st': "st' = st1\<lparr>scan_idx := find_marker (window st1) (scan_idx st1)\<rparr>" and
    far: "length (window st1) \<le> find_marker (window st1) (scan_idx st1) + 2"
    by (auto simp: next_record_def Let_def split: option.splits if_splits prod.splits)
  from ensure_bytes_True [OF e1] have
    len: "scan_idx st + 3 \<le> length (window st1)" and
    alt: "st1 = st \<or> length (file_rest st1) < length (file_rest st)" by auto
  from alt show ?thesis
  proof
    assume "length (file_rest st1) < length (file_rest st)"
    then show ?thesis by (simp add: scan_rel_def scan_measure_def st')
  next
    assume eq: "st1 = st"
    with len far find_marker_ge [of "scan_idx st" "window st"]
    show ?thesis by (simp add: scan_rel_def scan_measure_def st')
  qed
qed

lemma next_record_Found:
  assumes "next_record st = Some (Found st3 i advance)"
  shows "(st3\<lparr>scan_idx := i + advance\<rparr>, st) \<in> scan_rel"
    and "MIN_RECORD_BYTES \<le> advance"
    and "i + advance \<le> length (window st3)"
proof -
  from assms obtain st1 st2 where
    e1: "ensure_bytes (scan_idx st + 3) st = Some (True, st1)" and
    i: "i = find_marker (window st1) (scan_idx st1)" and
    e2: "ensure_bytes (i + MIN_RECORD_BYTES) st1 = Some (True, st2)" and
    adv: "MIN_RECORD_BYTES \<le> advance" and
    e3: "ensure_bytes (i + advance) st2 = Some (True, st3)"
    by (auto simp: next_record_def advance_of_def Let_def
          split: option.splits if_splits prod.splits)
  show "MIN_RECORD_BYTES \<le> advance" by (rule adv)
  from ensure_bytes_True [OF e3] show len3: "i + advance \<le> length (window st3)" by simp
  from ensure_bytes_True [OF e1] have
    alt1: "st1 = st \<or> length (file_rest st1) < length (file_rest st)" by simp
  from ensure_bytes_True [OF e2] have
    alt2: "st2 = st1 \<or> length (file_rest st2) < length (file_rest st1)" by simp
  from ensure_bytes_True [OF e3] have
    alt3: "st3 = st2 \<or> length (file_rest st3) < length (file_rest st2)" by simp
  note le = ensure_bytes_rest_le [OF e1] ensure_bytes_rest_le [OF e2] ensure_bytes_rest_le [OF e3]
  show "(st3\<lparr>scan_idx := i + advance\<rparr>, st) \<in> scan_rel"
  proof (cases "st3 = st")
    case True
    with alt1 alt2 alt3 le have "st1 = st" by auto
    with i find_marker_ge [of "scan_idx st" "window st"] have "scan_idx st \<le> i" by simp
    with len3 adv True show ?thesis
      by (simp add: scan_rel_def scan_measure_def MIN_RECORD_BYTES_def)
  next
    case False
    with alt1 alt2 alt3 le have "length (file_rest st3) < length (file_rest st)" by auto
    then show ?thesis by (simp add: scan_rel_def scan_measure_def)
  qed
qed

subsection \<open>The loop of \<^verbatim>\<open>process_records\<close>\<close>

text \<open>
  Lines 249 to 288. The call \<^verbatim>\<open>self.process_record(bytes(last_record), read_type, out)\<close>
  is the parameter \<open>emit\<close>, applied to the state \<open>s\<close> that \<^verbatim>\<open>process_record\<close> updates
  (the counters and the output); an exception it raises ends the loop. The result is what
  the code after the loop needs: \<^verbatim>\<open>record_count\<close>, \<^verbatim>\<open>last_record\<close> and \<open>s\<close>.
\<close>
function process_loop ::
  "(byte list \<Rightarrow> int \<Rightarrow> 's \<Rightarrow> error + 's) \<Rightarrow> scan_state \<Rightarrow> nat \<Rightarrow> byte list option \<Rightarrow> int \<Rightarrow> 's
     \<Rightarrow> (error + nat \<times> byte list option \<times> 's) option" where
  "process_loop emit st record_count last_record last_record_pos s =
     (case next_record st of
        None \<Rightarrow> None
      | Some Stop \<Rightarrow> Some (Inr (record_count, last_record, s))
      | Some (Retry st') \<Rightarrow> process_loop emit st' record_count last_record last_record_pos s
      | Some (Found st3 i advance) \<Rightarrow>
          (let record_start_pos = window_start_pos st3 + i;
               record_count' = record_count + 1
           in case (case last_record of
                      Some lr \<Rightarrow>
                        if last_record_pos \<ge> 0
                        then emit lr (get_read_type_from_delta
                                        (int record_start_pos - last_record_pos)) s
                        else Inr s
                    | None \<Rightarrow> Inr s) of
                Inl e \<Rightarrow> Some (Inl e)
              | Inr s' \<Rightarrow>
                  (let lr0 = (case last_record of
                                None \<Rightarrow> replicate RECORD_BUFFER_SIZE 0
                              | Some lr \<Rightarrow> lr);
                       lr' = copy_record lr0 (window st3) i advance
                   in process_loop emit (st3\<lparr>scan_idx := i + advance\<rparr>) record_count'
                        (Some lr') (int record_start_pos) s')))"
  by pat_completeness auto
termination
proof (relation "inv_image scan_rel (\<lambda>(emit, st, rc, lr, lrp, s). st)")
  show "wf (inv_image scan_rel (\<lambda>(emit, st, rc, lr, lrp, s). st))"
    by (simp add: wf_scan_rel)
qed (auto dest: next_record_Retry next_record_Found(1))

declare process_loop.simps [simp del]

definition initial_scan :: "byte list \<Rightarrow> scan_state" where
  "initial_scan data =
     \<lparr>window = [], window_cap = SCAN_CHUNK_SIZE * 2, scan_idx = 0, window_start_pos = 0,
      file_rest = data\<rparr>"

text \<open>
  \<^verbatim>\<open>process_records\<close> on a file with the bytes \<open>data\<close>: the loop, then the flush of the
  pending record with read type 2 (lines 290 and 291). \<open>None\<close>: the scan does not return.
\<close>
definition process_records_with ::
  "(byte list \<Rightarrow> int \<Rightarrow> 's \<Rightarrow> error + 's) \<Rightarrow> byte list \<Rightarrow> 's \<Rightarrow> (error + 's) option" where
  "process_records_with emit data s =
     (case process_loop emit (initial_scan data) 0 None (- 1) s of
        None \<Rightarrow> None
      | Some (Inl e) \<Rightarrow> Some (Inl e)
      | Some (Inr (record_count, last_record, s')) \<Rightarrow>
          (case last_record of
             Some lr \<Rightarrow> Some (emit lr 2 s')
           | None \<Rightarrow> Some (Inr s')))"

definition process_records ::
  "config \<Rightarrow> int \<times> int \<times> int \<Rightarrow> byte list \<Rightarrow> reader_state \<times> string list
     \<Rightarrow> (error + reader_state \<times> string list) option" where
  "process_records cfg today data s = process_records_with (process_record cfg today) data s"

text \<open>
  The candidates of a scan: the loop of \<^verbatim>\<open>process_records\<close> without its calls of
  \<^verbatim>\<open>process_record\<close>, returning for each round that finds a candidate the values it
  assigns to \<^verbatim>\<open>last_record_pos\<close> and \<^verbatim>\<open>last_record\<close>.
\<close>
function scan_candidates :: "scan_state \<Rightarrow> (nat \<times> byte list) list option" where
  "scan_candidates st =
     (case next_record st of
        None \<Rightarrow> None
      | Some Stop \<Rightarrow> Some []
      | Some (Retry st') \<Rightarrow> scan_candidates st'
      | Some (Found st3 i advance) \<Rightarrow>
          (case scan_candidates (st3\<lparr>scan_idx := i + advance\<rparr>) of
             None \<Rightarrow> None
           | Some cs \<Rightarrow>
               Some ((window_start_pos st3 + i,
                      copy_record (replicate RECORD_BUFFER_SIZE 0) (window st3) i advance) # cs)))"
  by pat_completeness auto
termination
  by (relation scan_rel) (auto simp: wf_scan_rel dest: next_record_Retry next_record_Found(1))

declare scan_candidates.simps [simp del]

section \<open>Properties of the field codec\<close>

subsection \<open>Bit masks as arithmetic\<close>

lemma and3_mod4: "(y::int) AND 3 = y mod 4"
  using take_bit_eq_mask [of 2 y] by (simp add: take_bit_eq_mod mask_eq_exp_minus_1)

lemma and_3FFF: "(v::int) AND 0x3FFF = v mod 16384"
  using take_bit_eq_mask [of 14 v] by (simp add: take_bit_eq_mod mask_eq_exp_minus_1)

lemma and_C000: "0 \<le> v \<Longrightarrow> v < 65536 \<Longrightarrow> (v::int) AND 0xC000 = 16384 * (v div 16384)"
proof -
  assume a: "0 \<le> v" "v < 65536"
  have hi: "n < 16" if "bit v n" for n
  proof (rule ccontr)
    assume "\<not> n < 16"
    then have "(2::int) ^ 16 \<le> 2 ^ n" by (intro power_increasing) auto
    with a have "v div 2 ^ n = 0" by (intro div_pos_pos_trivial) auto
    with that show False by (simp add: bit_iff_odd)
  qed
  have "v AND push_bit 14 (mask 2) = push_bit 14 (drop_bit 14 v)"
    by (rule bit_eqI) (auto simp: bit_simps dest: hi)
  then show ?thesis by (simp add: push_bit_eq_mult drop_bit_eq_div mask_eq_exp_minus_1)
qed

subsection \<open>Decimal digits\<close>

lemma str_nat_1: "m < 10 \<Longrightarrow> str_nat m = [digit_char m]"
  by (subst str_nat.simps) simp

lemma str_nat_step: "10 \<le> m \<Longrightarrow> str_nat m = str_nat (m div 10) @ [digit_char (m mod 10)]"
  by (subst str_nat.simps) simp

lemma str_nat_2: "10 \<le> m \<Longrightarrow> m < 100 \<Longrightarrow> str_nat m = [digit_char (m div 10), digit_char (m mod 10)]"
  by (simp add: str_nat_step str_nat_1)

lemma div_div_10: "(m::nat) div 10 div 10 = m div 100" "m div 10 div 100 = m div 1000"
  "m div 10 div 1000 = m div 10000"
  by (simp_all add: div_mult2_eq [symmetric])

lemma str_nat_3: "100 \<le> m \<Longrightarrow> m < 1000 \<Longrightarrow>
  str_nat m = [digit_char (m div 100), digit_char (m div 10 mod 10), digit_char (m mod 10)]"
  using str_nat_2 [of "m div 10"] by (simp add: str_nat_step div_div_10)

lemma str_nat_4: "1000 \<le> m \<Longrightarrow> m < 10000 \<Longrightarrow>
  str_nat m = [digit_char (m div 1000), digit_char (m div 100 mod 10), digit_char (m div 10 mod 10),
               digit_char (m mod 10)]"
  using str_nat_3 [of "m div 10"] by (simp add: str_nat_step div_div_10)

lemma str_nat_5: "10000 \<le> m \<Longrightarrow> m < 100000 \<Longrightarrow>
  str_nat m = [digit_char (m div 10000), digit_char (m div 1000 mod 10), digit_char (m div 100 mod 10),
               digit_char (m div 10 mod 10), digit_char (m mod 10)]"
  using str_nat_4 [of "m div 10"] by (simp add: str_nat_step div_div_10)

lemma digit_char_0: "digit_char 0 = CHR ''0''"
  by (simp add: digit_char_def)


lemma replicate_small:
  "replicate 4 c = [c, c, c, c]" "replicate 3 c = [c, c, c]" "replicate 2 c = [c, c]"
  by (simp_all add: numeral_eq_Suc)

lemma pad5:
  assumes "m < 100000"
  shows "replicate (5 - length (str_nat m)) (CHR ''0'') @ str_nat m =
     map digit_char [m div 10000, m div 1000 mod 10, m div 100 mod 10, m div 10 mod 10, m mod 10]"
proof -
  consider "m < 10" | "10 \<le> m" "m < 100" | "100 \<le> m" "m < 1000" | "1000 \<le> m" "m < 10000"
    | "10000 \<le> m" by linarith
  then show ?thesis
  proof cases
    case 1 then show ?thesis by (simp add: str_nat_1 digit_char_0 replicate_small)
  next
    case 2 then show ?thesis by (simp add: str_nat_2 digit_char_0 replicate_small)
  next
    case 3 then show ?thesis by (simp add: str_nat_3 digit_char_0 replicate_small)
  next
    case 4 then show ?thesis by (simp add: str_nat_4 digit_char_0 replicate_small)
  next
    case 5 with assms show ?thesis by (simp add: str_nat_5)
  qed
qed


subsection \<open>Geophone identifier\<close>

text \<open>
  The geophone decode in the words of the specification: the top two bits of the 16-bit
  identifier select the tag, and the low 14 bits are printed as five decimal digits.
\<close>
definition geophone_by_bits :: "int \<Rightarrow> string" where
  "geophone_by_bits v =
     (let tag = v div 16384;
          n = nat (v mod 16384);
          digits5 = map digit_char
            [n div 10000, n div 1000 mod 10, n div 100 mod 10, n div 10 mod 10, n mod 10]
      in if tag = 1 then ''TDA'' @ digits5
         else if tag = 2 then ''TDS'' @ digits5
         else if tag = 3 then ''???00000''
         else ''unknown'' @ digits5)"

lemma format_0d_5:
  assumes "0 \<le> n" "n < 100000"
  shows "format_0d 5 n =
     map digit_char [nat n div 10000, nat n div 1000 mod 10, nat n div 100 mod 10,
                     nat n div 10 mod 10, nat n mod 10]"
proof -
  have "nat \<bar>n\<bar> = nat n" "nat n < 100000" using assms by auto
  with pad5 [of "nat n"] assms show ?thesis by (simp add: format_0d_def)
qed

text \<open>
  Claim C8. For every 16-bit identifier, \<^verbatim>\<open>format_geophone\<close> selects the tag by the top two
  bits (1: TDA, 2: TDS, 3: the fixed placeholder of 8 characters, 0: unknown) and, except
  for the placeholder, appends the low 14 bits as a zero-padded number of 5 digits; 0x4005
  gives TDA00005, 0xC000 the placeholder and 0x0007 unknown00007.
\<close>
theorem format_geophone_by_bits:
  "(0 \<le> v \<and> v < 65536 \<longrightarrow> format_geophone v = geophone_by_bits v) \<and>
   format_geophone 0x4005 = ''TDA00005'' \<and>
   format_geophone 0xC000 = ''???00000'' \<and>
   format_geophone 0x0007 = ''unknown00007''"
proof (intro conjI impI)
  assume a: "0 \<le> v \<and> v < 65536"
  then have n: "0 \<le> v mod 16384" "v mod 16384 < 100000" by auto
  from a have q: "v div 16384 = 0 \<or> v div 16384 = 1 \<or> v div 16384 = 2 \<or> v div 16384 = 3"
    by auto
  from a q show "format_geophone v = geophone_by_bits v"
    by (auto simp: format_geophone_def geophone_by_bits_def and_C000 and_3FFF
          format_0d_5 [OF n] Let_def)
next
  show "format_geophone 0x4005 = ''TDA00005''" by code_simp
  show "format_geophone 0xC000 = ''???00000''" by code_simp
  show "format_geophone 0x0007 = ''unknown00007''" by code_simp
qed

theorem format_geophone_by_bits_witness:
  "format_geophone 0x8001 = ''TDS00001'' \<and> geophone_by_bits 0x8001 = ''TDS00001''"
proof -
  have "format_geophone 0x8001 = geophone_by_bits 0x8001"
    using format_geophone_by_bits [of "0x8001"] by simp
  moreover have "geophone_by_bits 0x8001 = ''TDS00001''"
    by (simp add: geophone_by_bits_def digit_char_def)
  ultimately show ?thesis by simp
qed

section \<open>Properties of the record validator\<close>

subsection \<open>A sample record\<close>

text \<open>
  A 68-byte record of the standard type 0x88, dated 2024-03-15 14:30:00, whose axis
  fields all hold the raw value 0x0800; a configuration without filters; and a reader
  that has processed nothing yet. \<^verbatim>\<open>process_record\<close> receives a record in the 70-byte
  holding buffer, that is followed by two zero bytes.
\<close>
definition sample_record :: "byte list" where
  "sample_record =
     [0x56, 0x49, 0x42, 0x88, 68, 0,  0, 30, 14, 15, 3, 24,  0x00, 0x08,
      0x00, 0x08, 0, 0, 0, 0, 0x00, 0x08, 0x00, 0x08, 0x00, 0x08, 0, 0,
      0x00, 0x08, 0, 0, 0, 0, 0x00, 0x08, 0x00, 0x08, 0x00, 0x08, 0, 0,
      0x00, 0x08, 0, 0, 0, 0, 0x00, 0x08, 0x00, 0x08, 0x00, 0x08, 0, 0,
      95, 100, 10, 0x14, 0, 0, 0x05, 0x40, 1, 0, 0, 0]"

definition sample_config :: config where
  "sample_config =
     \<lparr>print_header = False, print_number = True, filter_today = False, long_format = False,
      date_filter = None\<rparr>"

definition initial_reader :: "reader_state \<times> string list" where
  "initial_reader =
     (\<lparr>is_kb_mode = False, records_processed = 0, records_skipped = 0, record_counter = 0\<rparr>, [])"

lemma sample_header:
  "u16_le (sample_record @ [0, 0]) 4 = 68" "u8 (sample_record @ [0, 0]) 3 AND 0xFD = 0x88"
  by (simp_all add: sample_record_def u16_le_def u8_def)

lemma sample_datetime:
  "u8 (sample_record @ [0, 0]) 6 = 0" "u8 (sample_record @ [0, 0]) 7 = 30"
  "u8 (sample_record @ [0, 0]) 8 = 14" "u8 (sample_record @ [0, 0]) 9 = 15"
  "u8 (sample_record @ [0, 0]) 10 = 3" "u8 (sample_record @ [0, 0]) 11 = 24"
  by (simp_all add: sample_record_def u8_def)

subsection \<open>Structural rejection\<close>

lemma mask_0x45:
  assumes "0 \<le> rt" and "rt \<le> 9"
  shows "(push_bit (nat rt) (1::int) AND 0x45 \<noteq> 0) = (rt \<in> {0, 2, 6})"
proof -
  from assms have
    "rt = 0 \<or> rt = 1 \<or> rt = 2 \<or> rt = 3 \<or> rt = 4 \<or> rt = 5 \<or> rt = 6 \<or> rt = 7 \<or> rt = 8 \<or> rt = 9"
    by arith
  then show ?thesis by (auto simp: eval_nat_numeral)
qed

text \<open>
  The read types the scanner produces are 2 and 5, so never negative; on them the mask
  test of \<^verbatim>\<open>is_valid_to_process\<close> accepts exactly 0, 2 and 6 (and needs the size 68).
\<close>
lemma is_valid_to_process_eq:
  "0 \<le> read_type \<Longrightarrow>
   is_valid_to_process record_size read_type =
     Inr (read_type \<in> {0, 2, 6} \<and> record_size = 68)"
  using mask_0x45 [of read_type]
  by (auto simp: is_valid_to_process_def py_lshift_def bind_err_def)

text \<open>
  Claim C4. A candidate whose read type is not one of 0, 2, 6, or whose 16-bit size field
  is not 68, or whose type byte masked with 0xFD is not 0x88, is rejected before any
  decoding: the skipped counter goes up by one, and the output and the other counters
  stay as they were.
\<close>
theorem structural_rejection:
  assumes "0 \<le> read_type"
    and "read_type \<notin> {0, 2, 6} \<or> u16_le rec 4 \<noteq> 68 \<or> (u8 rec 3 AND 0xFD) \<noteq> 0x88"
  shows "process_record cfg today rec read_type s =
           Inr ((fst s)\<lparr>records_skipped := records_skipped (fst s) + 1\<rparr>, snd s)"
  using assms
  by (auto simp: process_record_def is_valid_to_process_eq bind_err_def skipped_def Let_def)

theorem structural_rejection_witness:
  "process_record sample_config (2024, 3, 15) (sample_record @ [0, 0]) 5 initial_reader =
     Inr (\<lparr>is_kb_mode = False, records_processed = 0, records_skipped = 1, record_counter = 0\<rparr>, [])"
  using structural_rejection [of 5 "sample_record @ [0, 0]" sample_config "(2024, 3, 15)" initial_reader]
  by (simp add: initial_reader_def)

subsection \<open>Calendar validation\<close>

text \<open>
  The calendar rule in the words of the specification: the day count of a month, with
  29 days in February exactly when the 2-digit year is divisible by 4.
\<close>
definition days_in_month :: "int \<Rightarrow> int \<Rightarrow> int" where
  "days_in_month year_yy month =
     (if month = 2 then (if year_yy mod 4 = 0 then 29 else 28)
      else if month = 4 \<or> month = 6 \<or> month = 9 \<or> month = 11 then 30
      else 31)"

definition calendar_ok :: "int \<Rightarrow> int \<Rightarrow> int \<Rightarrow> int \<Rightarrow> int \<Rightarrow> int \<Rightarrow> bool" where
  "calendar_ok second minute hour day month year_yy =
     (second \<le> 59 \<and> minute \<le> 59 \<and> hour \<le> 23 \<and> year_yy \<le> 99 \<and>
      1 \<le> month \<and> month \<le> 12 \<and> 1 \<le> day \<and> day \<le> days_in_month year_yy month)"

lemma datetime_valid_calendar:
  "datetime_valid second minute hour day month year_yy =
     calendar_ok second minute hour day month year_yy"
proof (cases "1 \<le> month \<and> month \<le> 12")
  case False
  then show ?thesis by (auto simp: datetime_valid_def calendar_ok_def)
next
  case True
  then have "month = 1 \<or> month = 2 \<or> month = 3 \<or> month = 4 \<or> month = 5 \<or> month = 6 \<or>
    month = 7 \<or> month = 8 \<or> month = 9 \<or> month = 10 \<or> month = 11 \<or> month = 12" by arith
  then show ?thesis
    by (auto simp: datetime_valid_def calendar_ok_def days_in_month_def and3_mod4)
qed

lemma write_row_not_skipped: "write_row cfg rec s \<noteq> Inr (skipped s)"
  by (simp add: write_row_def bind_err_def skipped_def split: sum.splits)

text \<open>
  Claim C5. A structurally accepted record goes on to the date filters and the decoding
  if and only if its six date and time bytes satisfy the calendar rule; otherwise the
  skipped counter goes up by one and nothing is written. With no date filter set, the
  record is skipped exactly when the calendar rule fails.
\<close>
theorem calendar_validation:
  assumes "read_type \<in> {0, 2, 6}" and "u16_le rec 4 = 68" and "u8 rec 3 AND 0xFD = 0x88"
  shows "process_record cfg today rec read_type s =
           (if calendar_ok (u8 rec 6) (u8 rec 7) (u8 rec 8) (u8 rec 9) (u8 rec 10) (u8 rec 11)
            then filter_and_write cfg today rec s
            else Inr ((fst s)\<lparr>records_skipped := records_skipped (fst s) + 1\<rparr>, snd s)) \<and>
         (\<not> filter_today cfg \<and> date_filter cfg = None \<longrightarrow>
            (process_record cfg today rec read_type s = Inr (skipped s)) =
            (\<not> calendar_ok (u8 rec 6) (u8 rec 7) (u8 rec 8) (u8 rec 9) (u8 rec 10) (u8 rec 11)))"
proof -
  from assms(1) have "0 \<le> read_type" by auto
  with assms have eq: "process_record cfg today rec read_type s =
      (if calendar_ok (u8 rec 6) (u8 rec 7) (u8 rec 8) (u8 rec 9) (u8 rec 10) (u8 rec 11)
       then filter_and_write cfg today rec s else Inr (skipped s))"
    by (simp add: process_record_def is_valid_to_process_eq bind_err_def
          datetime_valid_calendar RECORD_SIZE_EXPECTED_def)
  have "filter_and_write cfg today rec s = write_row cfg rec s"
    if "\<not> filter_today cfg \<and> date_filter cfg = None"
    using that by (simp add: filter_and_write_def)
  with eq write_row_not_skipped [of cfg rec s] show ?thesis
    by (auto simp: skipped_def)
qed

theorem calendar_validation_witness:
  "calendar_ok 0 30 14 15 3 24 \<and>
   process_record sample_config (2024, 3, 15) (sample_record @ [0, 0]) 2 initial_reader =
     filter_and_write sample_config (2024, 3, 15) (sample_record @ [0, 0]) initial_reader"
proof -
  have c: "calendar_ok 0 30 14 15 3 24" by (simp add: calendar_ok_def days_in_month_def)
  from calendar_validation [of 2 "sample_record @ [0, 0]" sample_config "(2024, 3, 15)" initial_reader]
    sample_header sample_datetime c
  show ?thesis by simp
qed

subsection \<open>Filter precedence\<close>

lemma format_float16_date_filter:
  "format_float16 (cfg\<lparr>date_filter := df\<rparr>) x = format_float16 cfg x"
  by (simp add: format_float16_def)

lemma format_int16_date_filter:
  "format_int16 (cfg\<lparr>date_filter := df\<rparr>) x = format_int16 cfg x"
  by (simp add: format_int16_def)

lemma parse_direction_date_filter:
  "parse_direction (cfg\<lparr>date_filter := df\<rparr>) rec off ext st = parse_direction cfg rec off ext st"
  unfolding parse_direction_def format_float16_date_filter format_int16_date_filter
  by simp

lemma csv_row_date_filter:
  "csv_row (cfg\<lparr>date_filter := df\<rparr>) rec d t ty sz = csv_row cfg rec d t ty sz"
  unfolding csv_row_def parse_direction_date_filter format_float16_date_filter
  by simp

lemma write_row_date_filter: "write_row (cfg\<lparr>date_filter := df\<rparr>) rec s = write_row cfg rec s"
  by (simp add: write_row_def csv_row_date_filter)

text \<open>
  Claim C10. When \<^verbatim>\<open>filter_today\<close> is set, a record that passed the validation is written
  exactly when its date is today's, and \<^verbatim>\<open>process_record\<close> gives the same result whatever
  the date filter is; the exact-date filter decides only when \<^verbatim>\<open>filter_today\<close> is unset.
\<close>
theorem filter_precedence:
  "(filter_today cfg \<longrightarrow>
      filter_and_write cfg today rec s =
        (if (2000 + u8 rec 11, u8 rec 10, u8 rec 9) = today then write_row cfg rec s
         else Inr (skipped s)) \<and>
      process_record (cfg\<lparr>date_filter := df\<rparr>) today rec read_type s =
        process_record cfg today rec read_type s) \<and>
   (\<not> filter_today cfg \<longrightarrow>
      filter_and_write cfg today rec s =
        (case date_filter cfg of
           None \<Rightarrow> write_row cfg rec s
         | Some d \<Rightarrow> if date_string rec = d then write_row cfg rec s else Inr (skipped s)))"
proof -
  have "filter_and_write (cfg\<lparr>date_filter := df\<rparr>) today rec s = filter_and_write cfg today rec s"
    if "filter_today cfg"
    using that by (simp add: filter_and_write_def write_row_date_filter)
  then have "process_record (cfg\<lparr>date_filter := df\<rparr>) today rec read_type s =
      process_record cfg today rec read_type s" if "filter_today cfg"
    using that by (simp only: process_record_def)
  then show ?thesis
    by (auto simp: filter_and_write_def Let_def split: option.splits)
qed

theorem filter_precedence_witness:
  "filter_and_write (sample_config\<lparr>filter_today := True, date_filter := Some ''2024-03-15''\<rparr>)
     (2025, 1, 1) (sample_record @ [0, 0]) initial_reader =
   Inr (\<lparr>is_kb_mode = False, records_processed = 0, records_skipped = 1, record_counter = 0\<rparr>, [])"
  using filter_precedence
    [of "sample_config\<lparr>filter_today := True, date_filter := Some ''2024-03-15''\<rparr>"
        "(2025, 1, 1)" "sample_record @ [0, 0]" initial_reader]
  by (simp add: sample_config_def sample_record_def u8_def skipped_def initial_reader_def)

subsection \<open>The shift by the exponent field\<close>

text \<open>
  When the top five bits of the raw value are zero the exponent \<open>e\<close> is \<open>-1\<close>, and the
  left shift by \<open>e\<close> raises; from \<open>e = 0\<close> on the decode is the one the specification
  describes.
\<close>
lemma sv_from_float16_decode:
  assumes "2048 \<le> raw AND 0xFFFF"
  shows "sv_from_float16 raw =
     (let e = drop_bit 11 (raw AND 0xFFFF) - 1
      in if e \<le> 0x13 then Inr (push_bit (nat e) ((raw AND 0x7FF) OR 0x800)) else Inr raw)"
proof -
  from assms have "1 \<le> (raw AND 0xFFFF) div 2048" by simp
  then show ?thesis
    by (simp add: sv_from_float16_def py_lshift_def drop_bit_eq_div Let_def)
qed

text \<open>
  Claim C7, at the input the code fails on. For the raw value 0 the exponent is \<open>-1\<close>, not
  above 0x13, and \<^verbatim>\<open>sv_from_float16\<close> raises ValueError (negative shift count) where the
  claim has it return the mantissa shifted by the exponent.
\<close>
theorem sv_from_float16_negative_shift:
  "sv_from_float16 0 = Inl ValueError_negative_shift_count"
  by (simp add: sv_from_float16_def py_lshift_def)

section \<open>Properties of the scanner\<close>

subsection \<open>The scan returns\<close>

text \<open>
  The capacity of the window starts positive and never shrinks, so the doubling loop
  returns, and with it \<^verbatim>\<open>ensure_bytes\<close> and every round of the scanning loop.
\<close>

lemma grow_size_Some: "0 < n \<Longrightarrow> \<exists>m. grow_size n r = Some m \<and> n \<le> m"
proof (induction "r - n" arbitrary: n rule: less_induct)
  case less
  show ?case
  proof (cases "n < r")
    case True
    with less.prems have "r - n * 2 < r - n" by arith
    from less.hyps [OF this] less.prems obtain m where "grow_size (n * 2) r = Some m" "n * 2 \<le> m"
      by auto
    with True show ?thesis by (subst grow_size.simps) auto
  next
    case False
    then show ?thesis by (subst grow_size.simps) auto
  qed
qed

lemma new_capacity_Some:
  assumes "0 < window_cap st"
  shows "\<exists>cap. new_capacity st r = Some cap \<and> 0 < cap"
proof (cases "length (window st) = window_cap st")
  case True
  from assms have "0 < window_cap st * 2" by simp
  from grow_size_Some [OF this, of r] obtain m where
    "grow_size (window_cap st * 2) r = Some m" "window_cap st * 2 \<le> m" by blast
  with True assms show ?thesis by (auto simp: new_capacity_def)
next
  case False
  with assms show ?thesis by (simp add: new_capacity_def)
qed

lemma refill_cap: "window_cap (refill st cap) = cap"
  by (simp add: refill_def Let_def)

lemma ensure_bytes_Some:
  "0 < window_cap st \<Longrightarrow> \<exists>b st'. ensure_bytes r st = Some (b, st') \<and> 0 < window_cap st'"
proof (induction "length (file_rest st)" arbitrary: st rule: less_induct)
  case less
  show ?case
  proof (cases "length (window st) < r")
    case False
    with less.prems show ?thesis by (auto simp: ensure_bytes_enough)
  next
    case True
    from new_capacity_Some [of "compact_window st" r] less.prems obtain cap where
      cap: "new_capacity (compact_window st) r = Some cap" "0 < cap"
      by (auto simp: compact_window_simps)
    show ?thesis
    proof (cases "take (cap - length (window (compact_window st))) (file_rest st) = []")
      case True
      with cap \<open>length (window st) < r\<close> show ?thesis
        by (auto simp: ensure_bytes_round)
    next
      case False
      from less.hyps [OF refill_rest [OF False], of ] cap(2)
      obtain b st' where "ensure_bytes r (refill st cap) = Some (b, st')" "0 < window_cap st'"
        by (auto simp: refill_cap)
      with cap False True show ?thesis by (auto simp: ensure_bytes_round)
    qed
  qed
qed

lemma next_record_Some:
  assumes "0 < window_cap st"
  shows "\<exists>res. next_record st = Some res \<and>
     (case res of Stop \<Rightarrow> True | Retry st' \<Rightarrow> 0 < window_cap st'
      | Found st' i advance \<Rightarrow> 0 < window_cap st')"
proof -
  from ensure_bytes_Some [OF assms] obtain ok1 st1 where
    e1: "ensure_bytes (scan_idx st + 3) st = Some (ok1, st1)" "0 < window_cap st1" by blast
  let ?i = "find_marker (window st1) (scan_idx st1)"
  from ensure_bytes_Some [OF e1(2)] obtain ok2 st2 where
    e2: "ensure_bytes (?i + MIN_RECORD_BYTES) st1 = Some (ok2, st2)" "0 < window_cap st2" by blast
  let ?adv = "advance_of (nat (uint (window st2 ! (?i + 4)) OR
                                  push_bit 8 (uint (window st2 ! (?i + 5)))))"
  from ensure_bytes_Some [OF e2(2)] obtain ok3 st3 where
    e3: "ensure_bytes (?i + ?adv) st2 = Some (ok3, st3)" "0 < window_cap st3" by blast
  from e1 e2 e3 show ?thesis
    by (simp add: next_record_def Let_def)
qed

lemma process_loop_returns:
  "0 < window_cap st \<Longrightarrow> \<exists>res. process_loop emit st rc lr lrp s = Some res"
proof (induction emit st rc lr lrp s rule: process_loop.induct)
  case (1 emit st record_count last_record last_record_pos s)
  from next_record_Some [OF "1.prems"] obtain res where
    res: "next_record st = Some res" and
    inv: "case res of Stop \<Rightarrow> True | Retry st' \<Rightarrow> 0 < window_cap st'
      | Found st' i advance \<Rightarrow> 0 < window_cap st'" by blast
  show ?case
  proof (cases res)
    case Stop
    with res show ?thesis by (subst process_loop.simps) simp
  next
    case (Retry st')
    with inv "1.IH"(1) [OF res Retry] res show ?thesis
      by (subst process_loop.simps) simp
  next
    case (Found st3 i advance)
    show ?thesis
    proof (cases "case last_record of
                      Some lr \<Rightarrow>
                        if last_record_pos \<ge> 0
                        then emit lr (get_read_type_from_delta
                                        (int (window_start_pos st3 + i) - last_record_pos)) s
                        else Inr s
                    | None \<Rightarrow> Inr s")
      case (Inl e)
      with res Found show ?thesis by (subst process_loop.simps) (simp add: Let_def)
    next
      case (Inr s')
      from inv Found have "0 < window_cap (st3\<lparr>scan_idx := i + advance\<rparr>)" by simp
      from "1.IH"(2) [OF res Found refl refl Inr refl refl this] res Found Inr
      show ?thesis by (subst process_loop.simps) (simp add: Let_def)
    qed
  qed
qed

text \<open>
  Claim C9. On every finite input the scan of \<^verbatim>\<open>process_records\<close> returns (with the
  reader's state or with the exception \<^verbatim>\<open>process_record\<close> raised), whatever the size
  fields in the stream are: the cursor moves past a candidate by its declared size or
  by 12 bytes, whichever is larger, so by 12 bytes at least also when the declared size
  is zero.
\<close>
theorem scanning_terminates:
  "(\<exists>res. process_records_with emit data s = Some res) \<and>
   advance_of record_size = max record_size 12 \<and> 12 \<le> advance_of record_size"
proof -
  have "0 < window_cap (initial_scan data)"
    by (simp add: initial_scan_def SCAN_CHUNK_SIZE_def)
  from process_loop_returns [OF this, of emit 0 None "- 1" s]
  obtain res where "process_loop emit (initial_scan data) 0 None (- 1) s = Some res" by blast
  then have "\<exists>res. process_records_with emit data s = Some res"
    by (auto simp: process_records_with_def split: sum.splits option.splits)
  then show ?thesis by (auto simp: advance_of_def MIN_RECORD_BYTES_def)
qed

theorem scanning_terminates_witness:
  "(\<exists>res. process_records_with (\<lambda>rec read_type n. Inr (Suc n)) [0x56, 0x49, 0x42, 0x88, 0, 0] 0
      = Some res) \<and> advance_of 0 = 12"
  using scanning_terminates [of "\<lambda>rec read_type n. Inr (Suc n)" "[0x56, 0x49, 0x42, 0x88, 0, 0]" 0 0]
  by simp

subsection \<open>One-behind emission\<close>

lemma copy_record_eq:
  assumes "i + min advance (length lr) \<le> length w"
  shows "copy_record lr w i advance =
     take (min advance (length lr)) (drop i w) @
     replicate (length lr - min advance (length lr)) 0"
proof -
  let ?c = "min advance (length lr)"
  from assms have len: "length (take ?c (drop i w)) = ?c" by simp
  show ?thesis
  proof (cases "?c < length lr")
    case True
    with len show ?thesis by (simp add: copy_record_def Let_def)
  next
    case False
    then have "?c = length lr" by simp
    with len show ?thesis by (simp add: copy_record_def Let_def)
  qed
qed

lemma copy_record_length:
  "i + min advance (length lr) \<le> length w \<Longrightarrow> length (copy_record lr w i advance) = length lr"
  by (simp add: copy_record_eq)

lemma copy_record_buffer:
  assumes "length lr = RECORD_BUFFER_SIZE" and "i + advance \<le> length w"
  shows "copy_record lr w i advance = copy_record (replicate RECORD_BUFFER_SIZE 0) w i advance"
proof -
  from assms have "i + min advance (length lr) \<le> length w" by simp
  moreover from assms have
    "i + min advance (length (replicate RECORD_BUFFER_SIZE (0::byte))) \<le> length w" by simp
  ultimately show ?thesis using assms(1) by (simp add: copy_record_eq)
qed

text \<open>
  The emission rule in the words of the specification. Of the candidates, given by their
  start offsets and bytes, all but the last are classified by the distance to the start
  of their successor: read type 2 when it is 68, read type 5 otherwise. The last
  candidate is emitted with read type 2.
\<close>
fun classified :: "(nat \<times> byte list) list \<Rightarrow> (byte list \<times> int) list" where
  "classified ((p, r) # (p', r') # cs) =
     (r, if int p' - int p = 68 then 2 else 5) # classified ((p', r') # cs)"
| "classified cs = []"

definition one_behind :: "(nat \<times> byte list) list \<Rightarrow> (byte list \<times> int) list" where
  "one_behind cs = classified cs @ (case cs of [] \<Rightarrow> [] | c # cs' \<Rightarrow> [(snd (last cs), 2)])"

text \<open>A consumer that records the calls of \<^verbatim>\<open>process_record\<close>: the record and the read type.\<close>
definition record_call :: "byte list \<Rightarrow> int \<Rightarrow> (byte list \<times> int) list \<Rightarrow> error + (byte list \<times> int) list" where
  "record_call rec read_type calls = Inr (calls @ [(rec, read_type)])"

text \<open>The pending candidate as the loop holds it in \<^verbatim>\<open>last_record\<close> and \<^verbatim>\<open>last_record_pos\<close>.\<close>
definition pending_list :: "(nat \<times> byte list) option \<Rightarrow> (nat \<times> byte list) list" where
  "pending_list pend = (case pend of None \<Rightarrow> [] | Some c \<Rightarrow> [c])"

definition pending_pos :: "(nat \<times> byte list) option \<Rightarrow> int" where
  "pending_pos pend = (case pend of None \<Rightarrow> - 1 | Some c \<Rightarrow> int (fst c))"

definition last_bytes :: "(nat \<times> byte list) list \<Rightarrow> byte list option" where
  "last_bytes cs = (if cs = [] then None else Some (snd (last cs)))"

lemma classified_pending:
  "classified (pending_list pend @ c # cs) =
     (case pend of None \<Rightarrow> [] | Some b \<Rightarrow> [(snd b, if int (fst c) - int (fst b) = 68 then 2 else 5)]) @
     classified (c # cs)"
  by (cases pend; cases c) (auto simp: pending_list_def)

lemma process_loop_record_call:
  assumes "scan_candidates st = Some cs"
    and "\<forall>c \<in> set (pending_list pend). length (snd c) = RECORD_BUFFER_SIZE"
  shows "process_loop record_call st rc (map_option snd pend) (pending_pos pend) calls =
     Some (Inr (rc + length cs, last_bytes (pending_list pend @ cs),
                calls @ classified (pending_list pend @ cs)))"
  using assms
proof (induction st arbitrary: cs pend rc calls rule: scan_candidates.induct)
  case (1 st)
  show ?case
  proof (cases "next_record st")
    case None
    with "1.prems"(1) show ?thesis by (simp add: scan_candidates.simps)
  next
    case (Some res)
    show ?thesis
    proof (cases res)
      case Stop
      with Some "1.prems"(1) have "cs = []" by (simp add: scan_candidates.simps)
      with Some Stop show ?thesis
        by (subst process_loop.simps)
           (cases pend; simp add: pending_list_def last_bytes_def split_beta)
    next
      case (Retry st')
      with Some "1.prems"(1) have "scan_candidates st' = Some cs"
        by (simp add: scan_candidates.simps)
      from "1.IH"(1) [OF Some Retry this "1.prems"(2)] Some Retry show ?thesis
        by (subst process_loop.simps) simp
    next
      case (Found st3 i advance)
      let ?c = "(window_start_pos st3 + i,
                 copy_record (replicate RECORD_BUFFER_SIZE 0) (window st3) i advance)"
      from Some Found have fit: "i + advance \<le> length (window st3)"
        by (simp add: next_record_Found(3))
      from Some Found "1.prems"(1) obtain cs' where
        cs': "scan_candidates (st3\<lparr>scan_idx := i + advance\<rparr>) = Some cs'" and
        cs: "cs = ?c # cs'"
        by (auto simp: scan_candidates.simps split: option.splits)
      have len: "\<forall>c \<in> set (pending_list (Some ?c)). length (snd c) = RECORD_BUFFER_SIZE"
        using fit by (simp add: pending_list_def copy_record_length)
      have copy: "copy_record (case map_option snd pend of
                      None \<Rightarrow> replicate RECORD_BUFFER_SIZE 0 | Some lr \<Rightarrow> lr)
                    (window st3) i advance = snd ?c"
        using "1.prems"(2) fit
        by (cases pend) (auto simp: pending_list_def intro: copy_record_buffer)
      have emit: "(case map_option snd pend of
                      Some lr \<Rightarrow>
                        if pending_pos pend \<ge> 0
                        then record_call lr (get_read_type_from_delta
                               (int (window_start_pos st3 + i) - pending_pos pend)) calls
                        else Inr calls
                    | None \<Rightarrow> Inr calls) =
          Inr (calls @ (case pend of None \<Rightarrow> []
                 | Some b \<Rightarrow> [(snd b, if int (fst ?c) - int (fst b) = 68 then 2 else 5)]))"
        by (cases pend)
           (auto simp: pending_pos_def record_call_def get_read_type_from_delta_def)
      from "1.IH"(2) [OF Some Found cs' len, of "rc + 1"
          "calls @ (case pend of None \<Rightarrow> []
                 | Some b \<Rightarrow> [(snd b, if int (fst ?c) - int (fst b) = 68 then 2 else 5)])"]
      have IH: "process_loop record_call (st3\<lparr>scan_idx := i + advance\<rparr>) (rc + 1)
          (Some (snd ?c)) (int (fst ?c))
          (calls @ (case pend of None \<Rightarrow> []
                 | Some b \<Rightarrow> [(snd b, if int (fst ?c) - int (fst b) = 68 then 2 else 5)])) =
        Some (Inr (rc + 1 + length cs', last_bytes (?c # cs'),
                   (calls @ (case pend of None \<Rightarrow> []
                      | Some b \<Rightarrow> [(snd b, if int (fst ?c) - int (fst b) = 68 then 2 else 5)])) @
                   classified (?c # cs')))"
        by (simp add: pending_list_def pending_pos_def)
      have last: "last_bytes (pending_list pend @ ?c # cs') = last_bytes (?c # cs')"
        by (simp add: last_bytes_def)
      show ?thesis
        apply (subst process_loop.simps)
        apply (simp only: Some Found option.case scan_result.case Let_def emit sum.case copy)
        using IH by (simp add: cs last classified_pending)
    qed
  qed
qed

lemma scan_candidates_returns:
  "0 < window_cap st \<Longrightarrow> \<exists>cs. scan_candidates st = Some cs"
proof (induction st rule: scan_candidates.induct)
  case (1 st)
  from next_record_Some [OF "1.prems"] obtain res where
    res: "next_record st = Some res" and
    inv: "case res of Stop \<Rightarrow> True | Retry st' \<Rightarrow> 0 < window_cap st'
      | Found st' i advance \<Rightarrow> 0 < window_cap st'" by blast
  show ?case
  proof (cases res)
    case Stop
    with res show ?thesis by (subst scan_candidates.simps) simp
  next
    case (Retry st')
    with inv "1.IH"(1) [OF res Retry] res show ?thesis
      by (subst scan_candidates.simps) simp
  next
    case (Found st3 i advance)
    with inv have "0 < window_cap (st3\<lparr>scan_idx := i + advance\<rparr>)" by simp
    from "1.IH"(2) [OF res Found this] res Found show ?thesis
      by (subst scan_candidates.simps) auto
  qed
qed

text \<open>
  The calls of \<^verbatim>\<open>process_record\<close> in terms of the candidates the loop itself finds (not
  of the markers of the stream): each candidate but the last with the read type of the
  distance to its successor's start (2 when the distance is 68, 5 otherwise), then the
  last candidate with read type 2.
\<close>
lemma emission_of_candidates:
  "\<exists>cs. scan_candidates (initial_scan data) = Some cs \<and>
        process_records_with record_call data [] = Some (Inr (one_behind cs))"
proof -
  have "0 < window_cap (initial_scan data)"
    by (simp add: initial_scan_def SCAN_CHUNK_SIZE_def)
  from scan_candidates_returns [OF this] obtain cs where
    cs: "scan_candidates (initial_scan data) = Some cs" by blast
  from process_loop_record_call [OF cs, of None 0 "[]"]
  have "process_loop record_call (initial_scan data) 0 None (- 1) [] =
      Some (Inr (length cs, last_bytes cs, classified cs))"
    by (simp add: pending_list_def pending_pos_def)
  then have "process_records_with record_call data [] = Some (Inr (one_behind cs))"
    by (cases cs)
       (simp_all add: process_records_with_def last_bytes_def one_behind_def record_call_def)
  with cs show ?thesis by blast
qed

subsection \<open>A stream that fits the window\<close>

text \<open>
  A stream of at most \<^verbatim>\<open>2 * SCAN_CHUNK_SIZE\<close> bytes is in the window after the first
  read; from then on \<^verbatim>\<open>ensure_bytes\<close> answers from the window alone.
\<close>

lemma ensure_bytes_initial:
  assumes "3 \<le> length data" and "length data \<le> SCAN_CHUNK_SIZE * 2"
  shows "ensure_bytes 3 (initial_scan data) =
     Some (True, (initial_scan data)\<lparr>window := data, file_rest := []\<rparr>)"
proof -
  have c: "compact_window (initial_scan data) = initial_scan data"
    by (simp add: compact_window_def initial_scan_def)
  have n: "new_capacity (initial_scan data) 3 = Some (SCAN_CHUNK_SIZE * 2)"
    by (simp add: new_capacity_def initial_scan_def SCAN_CHUNK_SIZE_def)
  from assms have t: "take (SCAN_CHUNK_SIZE * 2) data = data" by simp
  from assms have ne: "data \<noteq> []" by auto
  have pos: "SCAN_CHUNK_SIZE \<noteq> 0" by (simp add: SCAN_CHUNK_SIZE_def)
  have r: "refill (initial_scan data) (SCAN_CHUNK_SIZE * 2) =
      (initial_scan data)\<lparr>window := data, file_rest := []\<rparr>"
    using assms pos by (simp add: refill_def c Let_def) (simp add: initial_scan_def)
  have "ensure_bytes 3 (initial_scan data) =
      ensure_bytes 3 ((initial_scan data)\<lparr>window := data, file_rest := []\<rparr>)"
    using ne t pos
    by (subst ensure_bytes_round) (simp_all add: c n r, simp_all add: initial_scan_def)
  with assms show ?thesis by (simp add: ensure_bytes_enough)
qed

lemma ensure_bytes_exhausted:
  assumes "file_rest st = []" and "length (window st) < r" and "0 < window_cap st"
  shows "\<exists>st'. ensure_bytes r st = Some (False, st')"
proof -
  from new_capacity_Some [of "compact_window st" r] assms(3) obtain cap where
    "new_capacity (compact_window st) r = Some cap" by (auto simp: compact_window_simps)
  with assms show ?thesis by (simp add: ensure_bytes_round)
qed

definition marker_at :: "byte list \<Rightarrow> nat \<Rightarrow> bool" where
  "marker_at w i = (w ! i = 0x56 \<and> w ! (i + 1) = 0x49 \<and> w ! (i + 2) = 0x42)"

lemma find_marker_here: "i + 2 < length w \<Longrightarrow> marker_at w i \<Longrightarrow> find_marker w i = i"
  by (subst find_marker.simps) (simp add: marker_at_def)

lemma find_marker_skip:
  assumes "\<And>j. k \<le> j \<Longrightarrow> j < m \<Longrightarrow> \<not> marker_at w j"
    and "k \<le> m" and "m + 2 < length w" and "marker_at w m"
  shows "find_marker w k = m"
  using assms
proof (induction "m - k" arbitrary: k)
  case 0
  then show ?case by (simp add: find_marker_here)
next
  case (Suc d)
  then have "k < m" "\<not> marker_at w k" by auto
  moreover from Suc.hyps(1) [of "Suc k"] Suc.hyps(2) Suc.prems
  have "find_marker w (Suc k) = m" by auto
  ultimately show ?case using Suc.prems(3)
    by (subst find_marker.simps) (auto simp: marker_at_def)
qed

text \<open>One round of the loop on a window that holds the rest of the stream.\<close>
lemma next_record_found:
  assumes "file_rest st = []"
    and "find_marker (window st) (scan_idx st) = i"
    and "i + 2 < length (window st)"
    and "i + MIN_RECORD_BYTES \<le> length (window st)"
    and "advance_of (nat (u16_le (window st) (i + 4))) = advance"
    and "i + advance \<le> length (window st)"
  shows "next_record st = Some (Found st i advance)"
proof -
  from find_marker_ge [of "scan_idx st" "window st"] assms(2,3)
  have "scan_idx st + 3 \<le> length (window st)" by simp
  then have e1: "ensure_bytes (scan_idx st + 3) st = Some (True, st)"
    by (rule ensure_bytes_enough)
  from assms(4) have e2: "ensure_bytes (i + MIN_RECORD_BYTES) st = Some (True, st)"
    by (rule ensure_bytes_enough)
  from assms(6) have e3: "ensure_bytes (i + advance) st = Some (True, st)"
    by (rule ensure_bytes_enough)
  have "i + 4 + 1 = i + 5" by simp
  with assms(5) have adv: "advance_of (nat (uint (window st ! (i + 4)) OR
      push_bit 8 (uint (window st ! (i + 5))))) = advance"
    by (simp only: u16_le_def u8_def)
  from assms(2,3) e1 e2 e3 adv show ?thesis
    by (simp add: next_record_def Let_def)
qed

lemma next_record_end:
  assumes "file_rest st = []" and "length (window st) < scan_idx st + 3" and "0 < window_cap st"
  shows "next_record st = Some Stop"
proof -
  from ensure_bytes_exhausted [OF assms] obtain st' where
    "ensure_bytes (scan_idx st + 3) st = Some (False, st')" by blast
  then show ?thesis by (simp add: next_record_def)
qed

subsection \<open>Framed records and noise\<close>

text \<open>
  A framed record: 68 bytes that start with the marker \<^verbatim>\<open>VIB\<close> and declare the size 68.
  Noise: bytes in which the marker does not occur.
\<close>
definition framed :: "byte list \<Rightarrow> bool" where
  "framed r =
     (length r = 68 \<and> r ! 0 = 0x56 \<and> r ! 1 = 0x49 \<and> r ! 2 = 0x42 \<and> u16_le r 4 = 68)"

fun contains_marker :: "byte list \<Rightarrow> bool" where
  "contains_marker (a # b # c # xs) =
     ((a = 0x56 \<and> b = 0x49 \<and> c = 0x42) \<or> contains_marker (b # c # xs))"
| "contains_marker xs = False"

lemma contains_marker_at:
  "j + 2 < length xs \<Longrightarrow> marker_at xs j \<Longrightarrow> contains_marker xs"
proof (induction xs arbitrary: j rule: contains_marker.induct)
  case (1 a b c xs)
  show ?case
  proof (cases j)
    case 0
    with "1.prems" show ?thesis by (simp add: marker_at_def)
  next
    case (Suc j')
    with "1.prems" have "j' + 2 < length (b # c # xs)" "marker_at (b # c # xs) j'"
      by (simp_all add: marker_at_def)
    from "1.IH" [OF this] show ?thesis by simp
  qed
qed simp_all

lemma framed_in_stream:
  assumes "framed r"
  shows "marker_at (pre @ r @ post) (length pre)"
    and "u16_le (pre @ r @ post) (length pre + 4) = 68"
    and "take 68 (drop (length pre) (pre @ r @ post)) = r"
  using assms
  by (simp_all add: framed_def marker_at_def u16_le_def u8_def nth_append)

lemma noise_then_record:
  assumes "\<not> contains_marker noise" and "framed r"
    and "length pre \<le> j" and "j < length pre + length noise"
  shows "\<not> marker_at (pre @ noise @ r @ post) j"
proof
  assume m: "marker_at (pre @ noise @ r @ post) j"
  define t where "t = j - length pre"
  from assms(3,4) have j: "j = length pre + t" "t < length noise" by (simp_all add: t_def)
  from assms(2) have r: "length r = 68" "r ! 0 = 0x56" "r ! 1 = 0x49"
    by (simp_all add: framed_def)
  consider "t + 2 < length noise" | "t + 2 = length noise" | "t + 1 = length noise"
    using j(2) by linarith
  then show False
  proof cases
    case 1
    with m j have "marker_at noise t" by (simp add: marker_at_def nth_append)
    from contains_marker_at [OF 1 this] assms(1) show False by simp
  next
    case 2
    with m j r have "r ! 0 = 0x42"
      by (simp add: marker_at_def nth_append)
    with r show False by simp
  next
    case 3
    with m j r have "r ! 1 = 0x42"
      by (simp add: marker_at_def nth_append)
    with r show False by simp
  qed
qed

subsection \<open>Two records with noise between them\<close>

lemma next_record_initial:
  assumes "3 \<le> length data" and "length data \<le> SCAN_CHUNK_SIZE * 2"
  shows "next_record (initial_scan data) =
     next_record ((initial_scan data)\<lparr>window := data, file_rest := []\<rparr>)"
proof -
  let ?st = "(initial_scan data)\<lparr>window := data, file_rest := []\<rparr>"
  have "scan_idx ?st + 3 \<le> length (window ?st)"
    using assms(1) by (simp add: initial_scan_def)
  then have "ensure_bytes (scan_idx ?st + 3) ?st = Some (True, ?st)"
    by (rule ensure_bytes_enough)
  moreover have "ensure_bytes (scan_idx (initial_scan data) + 3) (initial_scan data) =
      Some (True, ?st)"
    using ensure_bytes_initial [OF assms] by (simp add: initial_scan_def)
  ultimately show ?thesis by (simp add: next_record_def)
qed

lemma copy_record_framed:
  assumes "framed r" and "length lr = RECORD_BUFFER_SIZE"
  shows "copy_record lr (pre @ r @ post) (length pre) 68 = r @ [0, 0]"
proof -
  from assms(1) have "length r = 68" by (simp add: framed_def)
  with assms(2) have "length pre + min 68 (length lr) \<le> length (pre @ r @ post)"
    by (simp add: RECORD_BUFFER_SIZE_def)
  from copy_record_eq [OF this] assms(2) framed_in_stream(3) [OF assms(1), of pre post]
  show ?thesis by (simp add: RECORD_BUFFER_SIZE_def numeral_2_eq_2)
qed

lemma advance_of_68: "advance_of 68 = 68"
  by (simp add: advance_of_def MIN_RECORD_BYTES_def)

text \<open>
  The scan of a stream made of a framed record, noise and a second framed record, when
  the stream fits the window: the first record is emitted with the read type of the
  distance \<open>68 + length noise\<close>, the second with read type 2.
\<close>
lemma process_records_two_records:
  assumes r1: "framed r1" and r2: "framed r2" and noise: "\<not> contains_marker noise"
    and fits: "length (r1 @ noise @ r2) \<le> SCAN_CHUNK_SIZE * 2"
  shows "process_records_with emit (r1 @ noise @ r2) s =
     Some (bind_err (emit (r1 @ [0, 0]) (if noise = [] then 2 else 5) s)
             (emit (r2 @ [0, 0]) 2))"
proof -
  let ?data = "r1 @ noise @ r2"
  let ?n = "length noise"
  let ?st0 = "(initial_scan ?data)\<lparr>window := ?data, file_rest := []\<rparr>"
  let ?st1 = "?st0\<lparr>scan_idx := 0 + 68\<rparr>"
  let ?st2 = "?st1\<lparr>scan_idx := (68 + ?n) + 68\<rparr>"
  from r1 r2 have len: "length r1 = 68" "length r2 = 68" by (simp_all add: framed_def)
  then have dlen: "length ?data = 136 + ?n" by simp
  have cap: "0 < window_cap ?st0" by (simp add: initial_scan_def SCAN_CHUNK_SIZE_def)
  \<comment> \<open>first round: the record at offset 0\<close>
  have m0: "marker_at ?data 0" using framed_in_stream(1) [OF r1, of "[]" "noise @ r2"] by simp
  have s0: "u16_le ?data (0 + 4) = 68"
    using framed_in_stream(2) [OF r1, of "[]" "noise @ r2"] by simp
  have f0: "find_marker (window ?st0) (scan_idx ?st0) = 0"
    using m0 dlen by (simp add: initial_scan_def find_marker_here)
  have n0: "next_record (initial_scan ?data) = Some (Found ?st0 0 68)"
  proof -
    have "next_record ?st0 = Some (Found ?st0 0 68)"
      using s0 len
      by (intro next_record_found [OF _ f0])
         (simp_all add: initial_scan_def MIN_RECORD_BYTES_def advance_of_68)
    with fits dlen show ?thesis by (simp add: next_record_initial)
  qed
  have c0: "copy_record (replicate RECORD_BUFFER_SIZE 0) (window ?st0) 0 68 = r1 @ [0, 0]"
    using copy_record_framed [OF r1, of "replicate RECORD_BUFFER_SIZE 0" "[]" "noise @ r2"]
    by simp
  \<comment> \<open>second round: the noise is passed, the record at offset \<open>68 + n\<close>\<close>
  have m1: "marker_at ?data (68 + ?n)"
    using framed_in_stream(1) [OF r2, of "r1 @ noise" "[]"] len by simp
  have s1: "u16_le ?data (68 + ?n + 4) = 68"
    using framed_in_stream(2) [OF r2, of "r1 @ noise" "[]"] len by simp
  have skip: "\<not> marker_at ?data j" if "68 \<le> j" "j < 68 + ?n" for j
    using noise_then_record [OF noise r2, of r1 j "[]"] that len by simp
  have f1: "find_marker (window ?st1) (scan_idx ?st1) = 68 + ?n"
    using find_marker_skip [of 68 "68 + ?n" ?data] skip m1 dlen
    by (simp add: initial_scan_def)
  have n1: "next_record ?st1 = Some (Found ?st1 (68 + ?n) 68)"
    using s1 len
    by (intro next_record_found [OF _ f1])
       (simp_all add: initial_scan_def MIN_RECORD_BYTES_def advance_of_68)
  have c1: "copy_record (r1 @ [0, 0]) (window ?st1) (68 + ?n) 68 = r2 @ [0, 0]"
    using copy_record_framed [OF r2, of "r1 @ [0, 0]" "r1 @ noise" "[]"] len
    by (simp add: RECORD_BUFFER_SIZE_def)
  \<comment> \<open>third round: the end of the stream\<close>
  have n2: "next_record ?st2 = Some Stop"
    using cap dlen by (intro next_record_end) (simp_all add: initial_scan_def)
  have l2: "process_loop emit ?st2 rc lr lrp s' = Some (Inr (rc, lr, s'))" for rc lr lrp s'
    by (subst process_loop.simps) (simp only: n2 option.case scan_result.case)
  have g: "get_read_type_from_delta (int (window_start_pos ?st1 + (68 + ?n)) - 0) =
      (if noise = [] then 2 else 5)"
    by (simp add: get_read_type_from_delta_def initial_scan_def)
  have l1: "process_loop emit ?st1 1 (Some (r1 @ [0, 0])) 0 s =
      (case emit (r1 @ [0, 0]) (if noise = [] then 2 else 5) s of
         Inl e \<Rightarrow> Some (Inl e)
       | Inr s' \<Rightarrow> Some (Inr (2, Some (r2 @ [0, 0]), s')))"
  proof (cases "emit (r1 @ [0, 0]) (if noise = [] then 2 else 5) s")
    case (Inl e)
    show ?thesis
      by (subst process_loop.simps)
         (simp only: n1 option.case scan_result.case Let_def g order_refl if_True Inl sum.case)
  next
    case (Inr s')
    have "process_loop emit ?st1 1 (Some (r1 @ [0, 0])) 0 s =
        Some (Inr (1 + 1, Some (r2 @ [0, 0]), s'))"
      by (subst process_loop.simps)
         (simp only: n1 option.case scan_result.case Let_def g order_refl if_True Inr sum.case
            c1 l2)
    with Inr show ?thesis by simp
  qed
  have l0: "process_loop emit (initial_scan ?data) 0 None (- 1) s =
      process_loop emit ?st1 1 (Some (r1 @ [0, 0])) 0 s"
    apply (subst process_loop.simps)
    apply (simp only: n0 option.case scan_result.case Let_def sum.case c0)
    apply (simp add: initial_scan_def)
    done
  show ?thesis
  proof (cases "emit (r1 @ [0, 0]) (if noise = [] then 2 else 5) s")
    case (Inl e)
    show ?thesis
      by (simp only: process_records_with_def l0 l1 Inl sum.case option.case bind_err_def)
  next
    case (Inr s')
    show ?thesis
      by (simp only: process_records_with_def l0 l1 Inr sum.case option.case prod.case
            bind_err_def)
  qed
qed

subsection \<open>The row of the sample record\<close>

lemma format_f_values:
  "format_f False 0 2 = ''0.00''" "format_f False 0 1 = ''0.0''"
  "format_f False 200 1 = ''20.0''" "format_f False 345 2 = ''3.45''"
  by code_simp+

lemma format_fixed_odd_values:
  "format_fixed_odd (2048 / 1000000) 2 = ''0.00''" "format_fixed_odd (0 / 2) 1 = ''0.0''"
  "format_fixed_odd (95 * (1 / 2) - 55 / 2) 1 = ''20.0''"
  "format_fixed_odd (100 * (1 / 100) + 245 / 100) 2 = ''3.45''"
proof -
  have "format_fixed_odd (2048 / 1000000) 2 = format_f False 0 2"
    by (simp add: format_fixed_odd_def)
  then show "format_fixed_odd (2048 / 1000000) 2 = ''0.00''" by (simp only: format_f_values)
  have "format_fixed_odd (0 / 2) 1 = format_f False 0 1"
    by (simp add: format_fixed_odd_def)
  then show "format_fixed_odd (0 / 2) 1 = ''0.0''" by (simp only: format_f_values)
  have "format_fixed_odd (95 * (1 / 2) - 55 / 2) 1 = format_f False 200 1"
    by (simp add: format_fixed_odd_def)
  then show "format_fixed_odd (95 * (1 / 2) - 55 / 2) 1 = ''20.0''"
    by (simp only: format_f_values)
  have "format_fixed_odd (100 * (1 / 100) + 245 / 100) 2 = format_f False 345 2"
    by (simp add: format_fixed_odd_def)
  then show "format_fixed_odd (100 * (1 / 100) + 245 / 100) 2 = ''3.45''"
    by (simp only: format_f_values)
qed

lemma sv_2048: "sv_is_value_valid 2048 = Inr 0" "sv_from_float16 2048 = Inr 2048"
  by (simp_all add: sv_is_value_valid_def sv_from_float16_def py_lshift_def bind_err_def)

lemma format_float16_2048: "format_float16 sample_config 2048 = Inr ''0.00''"
  using format_fixed_odd_values(1)
  by (simp add: format_float16_def to_i16_def sv_2048 bind_err_def is_special_value_def
        is_overload_def FLOAT16_DIVISOR_def sample_config_def)

lemma format_int16_0: "format_int16 sample_config 0 = ''0.0''"
  using format_fixed_odd_values(2)
  by (simp add: format_int16_def is_special_value_def INT16_DIVISOR_def sample_config_def)

lemma sample_axis_fields:
  "u16_le (sample_record @ [0, 0]) 12 = 2048"
  "u16_le (sample_record @ [0, 0]) 14 = 2048" "i16_le (sample_record @ [0, 0]) 16 = 0"
  "i16_le (sample_record @ [0, 0]) 18 = 0" "u16_le (sample_record @ [0, 0]) 20 = 2048"
  "u16_le (sample_record @ [0, 0]) 22 = 2048" "u16_le (sample_record @ [0, 0]) 24 = 2048"
  "i16_le (sample_record @ [0, 0]) 26 = 0"
  "u16_le (sample_record @ [0, 0]) 28 = 2048" "i16_le (sample_record @ [0, 0]) 30 = 0"
  "i16_le (sample_record @ [0, 0]) 32 = 0" "u16_le (sample_record @ [0, 0]) 34 = 2048"
  "u16_le (sample_record @ [0, 0]) 36 = 2048" "u16_le (sample_record @ [0, 0]) 38 = 2048"
  "i16_le (sample_record @ [0, 0]) 40 = 0"
  "u16_le (sample_record @ [0, 0]) 42 = 2048" "i16_le (sample_record @ [0, 0]) 44 = 0"
  "i16_le (sample_record @ [0, 0]) 46 = 0" "u16_le (sample_record @ [0, 0]) 48 = 2048"
  "u16_le (sample_record @ [0, 0]) 50 = 2048" "u16_le (sample_record @ [0, 0]) 52 = 2048"
  "i16_le (sample_record @ [0, 0]) 54 = 0"
  by (simp_all add: sample_record_def i16_le_def u16_le_def u8_def)

lemma sample_axis_status:
  "axis_status (sample_record @ [0, 0]) 14 = Inr 0"
  "axis_status (sample_record @ [0, 0]) 28 = Inr 0"
  "axis_status (sample_record @ [0, 0]) 42 = Inr 0"
  by (simp_all add: axis_status_def sample_axis_fields sv_2048 bind_err_def)

lemma sample_parse_direction:
  "parse_direction sample_config (sample_record @ [0, 0]) 14 False 0 =
     Inr (DirData ''0.00'' '''' ''0.0'' ''0.00'' ''0.00'' ''0.00'' ''0.0'' '''')"
  "parse_direction sample_config (sample_record @ [0, 0]) 28 False 0 =
     Inr (DirData ''0.00'' '''' ''0.0'' ''0.00'' ''0.00'' ''0.00'' ''0.0'' '''')"
  "parse_direction sample_config (sample_record @ [0, 0]) 42 False 0 =
     Inr (DirData ''0.00'' '''' ''0.0'' ''0.00'' ''0.00'' ''0.00'' ''0.0'' '''')"
  by (simp_all add: parse_direction_def sample_axis_fields format_float16_2048 format_int16_0
        bind_err_def)

lemma sample_sensor_bytes:
  "u8 (sample_record @ [0, 0]) 3 = 0x88" "u8 (sample_record @ [0, 0]) 56 = 95"
  "u8 (sample_record @ [0, 0]) 57 = 100" "u8 (sample_record @ [0, 0]) 58 = 10"
  "u8 (sample_record @ [0, 0]) 59 = 20" "u8 (sample_record @ [0, 0]) 60 = 0"
  "u8 (sample_record @ [0, 0]) 61 = 0" "u16_le (sample_record @ [0, 0]) 62 = 0x4005"
  "u8 (sample_record @ [0, 0]) 64 = 1" "u8 (sample_record @ [0, 0]) 65 = 0"
  "u8 (sample_record @ [0, 0]) 66 = 0" "length (sample_record @ [0, 0]) = 70"
  by (simp_all add: sample_record_def u16_le_def u8_def)

lemma str_int_values:
  "str_int 1 = ''1''" "str_int 10 = ''10''" "str_int 0 = ''0''" "str_int (- 73) = ''-73''"
  by code_simp+

lemma sample_strings:
  "date_string (sample_record @ [0, 0]) = ''2024-03-15''"
  "time_string (sample_record @ [0, 0]) = ''14:30:00''"
  "format_geophone 0x4005 = ''TDA00005''"
proof -
  have "format_0d 4 2024 = ''2024''" "format_0d 2 3 = ''03''" "format_0d 2 15 = ''15''"
    "format_0d 2 14 = ''14''" "format_0d 2 30 = ''30''" "format_0d 2 0 = ''00''"
    by code_simp+
  then show "date_string (sample_record @ [0, 0]) = ''2024-03-15''"
    "time_string (sample_record @ [0, 0]) = ''14:30:00''"
    by (simp_all add: date_string_def time_string_def sample_datetime)
  show "format_geophone 0x4005 = ''TDA00005''" by code_simp
qed

text \<open>The fields of the row of the sample record, as \<^verbatim>\<open>process_record\<close> appends them.\<close>
definition sample_fields :: "string list" where
  "sample_fields =
     [''2024-03-15'', ''14:30:00'', ''1'', '''', ''0.00'',
      '''', ''0.00'', '''', ''0.0'', ''0.00'', ''0.00'', ''0.00'', ''0.0'',
      '''', ''0.00'', '''', ''0.0'', ''0.00'', ''0.00'', ''0.00'', ''0.0'',
      '''', ''0.00'', '''', ''0.0'', ''0.00'', ''0.00'', ''0.00'', ''0.0'',
      ''20.0'', ''3.45'', ''10'', ''0'', ''-73'', ''Good'', ''0'', ''0'', ''vcatnone'',
      ''DIN'', ''0'', ''TDA00005'', ''0'']"

definition sample_row :: string where
  "sample_row = join_comma (map quoted sample_fields) @ [CHR 0x0A]"

lemma sample_config_fields:
  "print_number sample_config" "\<not> long_format sample_config"
  "\<not> filter_today sample_config" "date_filter sample_config = None"
  by (simp_all add: sample_config_def)

lemma sample_record_length: "length sample_record = 68"
  by (simp add: sample_record_def)

lemma sample_csv_row:
  "csv_row sample_config (sample_record @ [0, 0]) ''2024-03-15'' ''14:30:00'' 0x88 68 =
     Inr sample_row"
  using format_fixed_odd_values(3,4)
  by (simp add: csv_row_def sample_axis_status sample_parse_direction sample_sensor_bytes
        sample_axis_fields format_float16_2048 bind_err_def get_overall_status_def
        sys_maxsize_def status_to_string_def get_signal_quality_def get_peak_type_cat_def
        str_int_values sample_strings dir_fields_def sample_row_def sample_fields_def
        sample_config_fields sample_record_length)

text \<open>
  The end-to-end scenario of the specification: the sample record, emitted with read
  type 2, is written as one row, and no record is skipped.
\<close>
lemma sample_process_record:
  "process_record sample_config today (sample_record @ [0, 0]) 2 s =
     Inr ((fst s)\<lparr>records_processed := records_processed (fst s) + 1,
                  record_counter := record_counter (fst s) + 1\<rparr>,
          snd s @ [sample_row])"
proof -
  have "calendar_ok 0 30 14 15 3 24" by (simp add: calendar_ok_def days_in_month_def)
  then have "process_record sample_config today (sample_record @ [0, 0]) 2 s =
      write_row sample_config (sample_record @ [0, 0]) s"
    by (simp add: process_record_def is_valid_to_process_eq bind_err_def sample_header
          sample_datetime datetime_valid_calendar RECORD_SIZE_EXPECTED_def
          filter_and_write_def sample_config_fields)
  then show ?thesis
    by (simp add: write_row_def sample_strings sample_sensor_bytes sample_header sample_csv_row
          bind_err_def)
qed

subsection \<open>Noise between two records\<close>

lemma process_record_read_type_5: "process_record cfg today rec 5 s = Inr (skipped s)"
  by (simp add: process_record_def is_valid_to_process_eq bind_err_def)

lemma sample_framed: "framed sample_record"
  by (simp add: framed_def sample_record_def u16_le_def u8_def)

text \<open>
  Claim C1, as the code has it. For two framed records and noise without a marker, in a
  stream that fits the window (at most 524288 bytes): without the noise both records are
  processed with read type 2; with noise between them both markers are still found, and
  the second record is processed exactly as without the noise (read type 2, the same
  bytes), but the first one is emitted with read type 5, since its distance to the
  second is not 68, and is counted as skipped without a row.
\<close>
theorem resync_after_noise:
  assumes "framed r1" and "framed r2" and "\<not> contains_marker noise" and "noise \<noteq> []"
    and "length (r1 @ noise @ r2) \<le> SCAN_CHUNK_SIZE * 2"
  shows "process_records cfg today (r1 @ r2) s =
           Some (bind_err (process_record cfg today (r1 @ [0, 0]) 2 s)
                   (process_record cfg today (r2 @ [0, 0]) 2)) \<and>
         process_records cfg today (r1 @ noise @ r2) s =
           Some (process_record cfg today (r2 @ [0, 0]) 2 (skipped s))"
proof
  have "\<not> contains_marker []" by simp
  moreover from assms(5) have "length (r1 @ [] @ r2) \<le> SCAN_CHUNK_SIZE * 2" by simp
  ultimately have "process_records_with (process_record cfg today) (r1 @ [] @ r2) s =
      Some (bind_err
              (process_record cfg today (r1 @ [0, 0]) (if [] = ([] :: byte list) then 2 else 5) s)
              (process_record cfg today (r2 @ [0, 0]) 2))"
    using assms(1,2) by (rule process_records_two_records [rotated 2])
  then show "process_records cfg today (r1 @ r2) s =
      Some (bind_err (process_record cfg today (r1 @ [0, 0]) 2 s)
              (process_record cfg today (r2 @ [0, 0]) 2))"
    by (simp add: process_records_def)
  from process_records_two_records [OF assms(1,2,3,5), of "process_record cfg today" s] assms(4)
  show "process_records cfg today (r1 @ noise @ r2) s =
      Some (process_record cfg today (r2 @ [0, 0]) 2 (skipped s))"
    by (simp add: process_records_def process_record_read_type_5 bind_err_def)
qed

theorem resync_after_noise_witness:
  "framed sample_record \<and> \<not> contains_marker [0] \<and> [0 :: byte] \<noteq> [] \<and>
   length (sample_record @ [0] @ sample_record) \<le> SCAN_CHUNK_SIZE * 2 \<and>
   process_records sample_config (2024, 3, 15) (sample_record @ [0] @ sample_record)
       initial_reader =
     Some (Inr (\<lparr>is_kb_mode = False, records_processed = 1, records_skipped = 1,
                  record_counter = 1\<rparr>, [sample_row]))"
  using resync_after_noise [of sample_record sample_record "[0]" sample_config "(2024, 3, 15)"
          initial_reader]
  by (simp add: sample_framed sample_record_length SCAN_CHUNK_SIZE_def sample_process_record
        skipped_def initial_reader_def)

text \<open>
  The two sample records next to each other give two rows; with one zero byte between
  them the first row is lost and one record is counted as skipped.
\<close>
theorem noise_drops_first_record:
  "process_records sample_config (2024, 3, 15) (sample_record @ sample_record) initial_reader =
     Some (Inr (\<lparr>is_kb_mode = False, records_processed = 2, records_skipped = 0,
                  record_counter = 2\<rparr>, [sample_row, sample_row])) \<and>
   process_records sample_config (2024, 3, 15) (sample_record @ [0] @ sample_record)
       initial_reader =
     Some (Inr (\<lparr>is_kb_mode = False, records_processed = 1, records_skipped = 1,
                  record_counter = 1\<rparr>, [sample_row])) \<and>
   [sample_row, sample_row] \<noteq> [sample_row]"
proof -
  have "\<not> contains_marker ([] :: byte list)" "\<not> contains_marker [0 :: byte]" by simp_all
  from process_records_two_records [OF sample_framed sample_framed this(1),
         of "process_record sample_config (2024, 3, 15)" initial_reader]
       process_records_two_records [OF sample_framed sample_framed this(2),
         of "process_record sample_config (2024, 3, 15)" initial_reader]
  show ?thesis
    by (simp add: process_records_def sample_record_length SCAN_CHUNK_SIZE_def
          process_record_read_type_5 sample_process_record bind_err_def skipped_def
          initial_reader_def)
qed

text \<open>
  The calls the scanner makes on the two sample records with one zero byte between
  them: the first with read type 5, the second with read type 2.
\<close>
lemma emission_of_candidates_example:
  "\<exists>cs. scan_candidates (initial_scan (sample_record @ [0] @ sample_record)) = Some cs \<and>
        one_behind cs = [(sample_record @ [0, 0], 5), (sample_record @ [0, 0], 2)]"
proof -
  have "\<not> contains_marker [0 :: byte]" by simp
  from process_records_two_records [OF sample_framed sample_framed this, of record_call "[]"]
  have "process_records_with record_call (sample_record @ [0] @ sample_record) [] =
      Some (Inr [(sample_record @ [0, 0], 5), (sample_record @ [0, 0], 2)])"
    by (simp add: sample_record_length SCAN_CHUNK_SIZE_def record_call_def bind_err_def)
  with emission_of_candidates [of "sample_record @ [0] @ sample_record"] show ?thesis
    by auto
qed

subsection \<open>Records on which the decoding raises\<close>

text \<open>
  The sample record with the raw value 0 in the field \<^verbatim>\<open>V\<close> of the first axis, and the
  sample record as an extended record (type 0x8A) with the raw value 0xFFFF in the field
  \<^verbatim>\<open>KB\<close> of the first axis. Both pass the validation of \<^verbatim>\<open>process_record\<close>.
\<close>
definition zero_record :: "byte list" where
  "zero_record =
     [0x56, 0x49, 0x42, 0x88, 68, 0,  0, 30, 14, 15, 3, 24,  0x00, 0x08,
      0x00, 0x00, 0, 0, 0, 0, 0x00, 0x08, 0x00, 0x08, 0x00, 0x08, 0, 0,
      0x00, 0x08, 0, 0, 0, 0, 0x00, 0x08, 0x00, 0x08, 0x00, 0x08, 0, 0,
      0x00, 0x08, 0, 0, 0, 0, 0x00, 0x08, 0x00, 0x08, 0x00, 0x08, 0, 0,
      95, 100, 10, 0x14, 0, 0, 0x05, 0x40, 1, 0, 0, 0]"

definition kb_record :: "byte list" where
  "kb_record =
     [0x56, 0x49, 0x42, 0x8A, 68, 0,  0, 30, 14, 15, 3, 24,  0x00, 0x08,
      0x00, 0x08, 0xFF, 0xFF, 0, 0, 0x00, 0x08, 0x00, 0x08, 0x00, 0x08, 0, 0,
      0x00, 0x08, 0, 0, 0, 0, 0x00, 0x08, 0x00, 0x08, 0x00, 0x08, 0, 0,
      0x00, 0x08, 0, 0, 0, 0, 0x00, 0x08, 0x00, 0x08, 0x00, 0x08, 0, 0,
      95, 100, 10, 0x14, 0, 0, 0x05, 0x40, 1, 0, 0, 0]"

lemma sv_is_value_valid_0: "sv_is_value_valid 0 = Inl ValueError_negative_shift_count"
  by (simp add: sv_is_value_valid_def py_lshift_def bind_err_def)

lemma accepted_record:
  assumes "u16_le rec 4 = 68" and "u8 rec 3 AND 0xFD = 0x88"
    and "u8 rec 6 = 0" and "u8 rec 7 = 30" and "u8 rec 8 = 14" and "u8 rec 9 = 15"
    and "u8 rec 10 = 3" and "u8 rec 11 = 24"
  shows "process_record sample_config today rec 2 s = write_row sample_config rec s"
proof -
  have "calendar_ok 0 30 14 15 3 24" by (simp add: calendar_ok_def days_in_month_def)
  with assms show ?thesis
    by (simp add: process_record_def is_valid_to_process_eq bind_err_def
          datetime_valid_calendar RECORD_SIZE_EXPECTED_def filter_and_write_def
          sample_config_fields)
qed

lemma zero_record_raises:
  "framed zero_record"
  "process_record sample_config today (zero_record @ [0, 0]) 2 s =
     Inl ValueError_negative_shift_count"
proof -
  show "framed zero_record" by (simp add: framed_def zero_record_def u16_le_def u8_def)
  have "u16_le (zero_record @ [0, 0]) 14 = 0" by (simp add: zero_record_def u16_le_def u8_def)
  then have "axis_status (zero_record @ [0, 0]) 14 = Inl ValueError_negative_shift_count"
    by (simp add: axis_status_def sv_is_value_valid_0 bind_err_def)
  then have "write_row sample_config (zero_record @ [0, 0]) s =
      Inl ValueError_negative_shift_count"
    by (simp add: write_row_def csv_row_def bind_err_def)
  moreover have "process_record sample_config today (zero_record @ [0, 0]) 2 s =
      write_row sample_config (zero_record @ [0, 0]) s"
    by (rule accepted_record) (simp_all add: zero_record_def u16_le_def u8_def)
  ultimately show "process_record sample_config today (zero_record @ [0, 0]) 2 s =
      Inl ValueError_negative_shift_count" by simp
qed

lemma kb_record_raises:
  "framed kb_record"
  "process_record sample_config today (kb_record @ [0, 0]) 2 s =
     Inl ValueError_math_domain_error"
proof -
  show "framed kb_record" by (simp add: framed_def kb_record_def u16_le_def u8_def)
  have fields: "u16_le (kb_record @ [0, 0]) 14 = 2048" "i16_le (kb_record @ [0, 0]) 16 = - 1"
    "u16_le (kb_record @ [0, 0]) 20 = 2048" "u16_le (kb_record @ [0, 0]) 22 = 2048"
    "u16_le (kb_record @ [0, 0]) 24 = 2048" "u16_le (kb_record @ [0, 0]) 28 = 2048"
    "u16_le (kb_record @ [0, 0]) 34 = 2048" "u16_le (kb_record @ [0, 0]) 36 = 2048"
    "u16_le (kb_record @ [0, 0]) 38 = 2048" "u16_le (kb_record @ [0, 0]) 42 = 2048"
    "u16_le (kb_record @ [0, 0]) 48 = 2048" "u16_le (kb_record @ [0, 0]) 50 = 2048"
    "u16_le (kb_record @ [0, 0]) 52 = 2048" "u8 (kb_record @ [0, 0]) 3 = 0x8A"
    by (simp_all add: kb_record_def i16_le_def u16_le_def u8_def)
  have status: "axis_status (kb_record @ [0, 0]) 14 = Inr 0"
    "axis_status (kb_record @ [0, 0]) 28 = Inr 0" "axis_status (kb_record @ [0, 0]) 42 = Inr 0"
    by (simp_all add: axis_status_def fields sv_2048 bind_err_def)
  have "sv_from_float16 (- 1) = Inr (- 1)" by (simp add: sv_from_float16_def)
  then have "parse_direction sample_config (kb_record @ [0, 0]) 14 True 0 =
      Inl ValueError_math_domain_error"
    by (simp add: parse_direction_def fields format_float16_2048 py_sqrt_def bind_err_def)
  then have "write_row sample_config (kb_record @ [0, 0]) s = Inl ValueError_math_domain_error"
    by (simp add: write_row_def csv_row_def status fields bind_err_def get_overall_status_def)
  moreover have "process_record sample_config today (kb_record @ [0, 0]) 2 s =
      write_row sample_config (kb_record @ [0, 0]) s"
    by (rule accepted_record) (simp_all add: kb_record_def u16_le_def u8_def)
  ultimately show "process_record sample_config today (kb_record @ [0, 0]) 2 s =
      Inl ValueError_math_domain_error" by simp
qed

text \<open>
  Claim C2, at inputs the code fails on. \<^verbatim>\<open>sv_is_value_valid\<close> raises on the raw value 0
  (shift count \<open>-1\<close>), so the scan of a stream of two accepted records with that value in
  an axis field ends with the exception; and in an extended record the raw value 0xFFFF
  of the \<^verbatim>\<open>KB\<close> field decodes to \<open>-1\<close>, on which \<^verbatim>\<open>math.sqrt\<close> raises.
\<close>
theorem decoding_raises:
  "sv_is_value_valid 0 = Inl ValueError_negative_shift_count \<and>
   process_records sample_config (2024, 3, 15) (zero_record @ zero_record) initial_reader =
     Some (Inl ValueError_negative_shift_count) \<and>
   process_records sample_config (2024, 3, 15) (kb_record @ kb_record) initial_reader =
     Some (Inl ValueError_math_domain_error)"
proof -
  have n: "\<not> contains_marker ([] :: byte list)" by simp
  have l: "length zero_record = 68" "length kb_record = 68"
    by (simp_all add: zero_record_def kb_record_def)
  from process_records_two_records [OF zero_record_raises(1) zero_record_raises(1) n,
         of "process_record sample_config (2024, 3, 15)" initial_reader]
  have "process_records sample_config (2024, 3, 15) (zero_record @ zero_record) initial_reader =
      Some (Inl ValueError_negative_shift_count)"
    by (simp add: process_records_def l SCAN_CHUNK_SIZE_def zero_record_raises(2) bind_err_def)
  moreover
  from process_records_two_records [OF kb_record_raises(1) kb_record_raises(1) n,
         of "process_record sample_config (2024, 3, 15)" initial_reader]
  have "process_records sample_config (2024, 3, 15) (kb_record @ kb_record) initial_reader =
      Some (Inl ValueError_math_domain_error)"
    by (simp add: process_records_def l SCAN_CHUNK_SIZE_def kb_record_raises(2) bind_err_def)
  ultimately show ?thesis using sv_is_value_valid_0 by simp
qed

subsection \<open>A record that crosses the end of the window\<close>

text \<open>
  The first read fills the window with the first \<^verbatim>\<open>2 * SCAN_CHUNK_SIZE\<close> bytes of the
  stream.
\<close>
lemma ensure_bytes_first_read:
  assumes "3 \<le> length data"
  shows "ensure_bytes 3 (initial_scan data) =
     Some (True, (initial_scan data)\<lparr>window := take (SCAN_CHUNK_SIZE * 2) data,
                                     file_rest := drop (SCAN_CHUNK_SIZE * 2) data\<rparr>)"
proof -
  let ?C = "SCAN_CHUNK_SIZE * 2"
  let ?st = "(initial_scan data)\<lparr>window := take ?C data, file_rest := drop ?C data\<rparr>"
  have c: "compact_window (initial_scan data) = initial_scan data"
    by (simp add: compact_window_def initial_scan_def)
  have n: "new_capacity (initial_scan data) 3 = Some ?C"
    by (simp add: new_capacity_def initial_scan_def SCAN_CHUNK_SIZE_def)
  have C3: "3 \<le> ?C" by (simp add: SCAN_CHUNK_SIZE_def)
  from assms C3 have ne: "take ?C data \<noteq> []" by auto
  have d: "drop (length (take ?C data)) data = drop ?C data"
    by (cases "length data \<le> ?C") (simp_all add: min_def)
  have r: "refill (initial_scan data) ?C = ?st"
    using d by (simp add: refill_def c Let_def) (simp add: initial_scan_def)
  have "ensure_bytes 3 (initial_scan data) = ensure_bytes 3 ?st"
    using ne by (subst ensure_bytes_round) (simp_all add: c n r, simp_all add: initial_scan_def)
  moreover from assms C3 have "3 \<le> length (window ?st)" by simp
  ultimately show ?thesis by (simp add: ensure_bytes_enough)
qed

text \<open>One round of the loop that the window answers without a read.\<close>
lemma next_record_in_window:
  assumes "find_marker (window st) (scan_idx st) = i"
    and "i + 2 < length (window st)"
    and "i + MIN_RECORD_BYTES \<le> length (window st)"
    and "advance_of (nat (u16_le (window st) (i + 4))) = advance"
    and "i + advance \<le> length (window st)"
  shows "next_record st = Some (Found st i advance)"
proof -
  from find_marker_ge [of "scan_idx st" "window st"] assms(1,2)
  have "scan_idx st + 3 \<le> length (window st)" by simp
  then have e1: "ensure_bytes (scan_idx st + 3) st = Some (True, st)"
    by (rule ensure_bytes_enough)
  from assms(3) have e2: "ensure_bytes (i + MIN_RECORD_BYTES) st = Some (True, st)"
    by (rule ensure_bytes_enough)
  from assms(5) have e3: "ensure_bytes (i + advance) st = Some (True, st)"
    by (rule ensure_bytes_enough)
  have "i + 4 + 1 = i + 5" by simp
  with assms(4) have adv: "advance_of (nat (uint (window st ! (i + 4)) OR
      push_bit 8 (uint (window st ! (i + 5))))) = advance"
    by (simp only: u16_le_def u8_def)
  from assms(1,2) e1 e2 e3 adv show ?thesis
    by (simp add: next_record_def Let_def)
qed

text \<open>
  \<^verbatim>\<open>ensure_bytes\<close> asked for an index beyond the window when the file has fewer bytes
  left than the compaction frees: the index, which the caller computed before the
  compaction, is still beyond the window after the read, and the answer is \<^verbatim>\<open>False\<close>.
\<close>
lemma ensure_bytes_not_rebased:
  assumes "length (window st) = window_cap st" and "0 < scan_idx st"
    and "scan_idx st \<le> length (window st)"
    and "file_rest st \<noteq> []" and "length (file_rest st) \<le> scan_idx st"
    and "length (window st) < r"
  shows "\<exists>st'. ensure_bytes r st = Some (False, st')"
proof -
  let ?c = "compact_window st"
  let ?cap = "window_cap st"
  from assms(2) have w: "window ?c = drop (scan_idx st) (window st)"
    by (simp add: compact_window_def)
  from assms(1,2,3) have "?cap - scan_idx st \<noteq> ?cap" by arith
  with assms(1) w have n: "new_capacity ?c r = Some ?cap"
    by (simp add: new_capacity_def compact_window_simps)
  from assms(1,3) w have free: "?cap - length (window ?c) = scan_idx st" by simp
  with assms(4,5) have t: "take (?cap - length (window ?c)) (file_rest st) = file_rest st"
    by simp
  note lt = assms(6)
  from assms(3,5,6) have lt': "length (window st) - scan_idx st + length (file_rest st) < r"
    by arith
  have 1: "ensure_bytes r st = ensure_bytes r (refill st ?cap)"
    using assms(4) by (subst ensure_bytes_round [OF lt]) (simp add: n t)
  have "file_rest (refill st ?cap) = []"
    using free assms(5) by (simp add: refill_def Let_def compact_window_simps)
  moreover have "length (window (refill st ?cap)) < r"
    using lt' free assms(5) by (simp add: refill_def Let_def compact_window_simps w)
  moreover from assms(1,2,3) have "0 < window_cap (refill st ?cap)" by (simp add: refill_cap)
  ultimately show ?thesis using 1 by (simp add: ensure_bytes_exhausted)
qed

lemma next_record_cut:
  assumes "find_marker (window st) (scan_idx st) = i"
    and "i + 2 < length (window st)"
    and "i + MIN_RECORD_BYTES \<le> length (window st)"
    and "advance_of (nat (u16_le (window st) (i + 4))) = advance"
    and "ensure_bytes (i + advance) st = Some (False, st')"
  shows "next_record st = Some Stop"
proof -
  from find_marker_ge [of "scan_idx st" "window st"] assms(1,2)
  have "scan_idx st + 3 \<le> length (window st)" by simp
  then have e1: "ensure_bytes (scan_idx st + 3) st = Some (True, st)"
    by (rule ensure_bytes_enough)
  from assms(3) have e2: "ensure_bytes (i + MIN_RECORD_BYTES) st = Some (True, st)"
    by (rule ensure_bytes_enough)
  have "i + 4 + 1 = i + 5" by simp
  with assms(4) have adv: "advance_of (nat (uint (window st ! (i + 4)) OR
      push_bit 8 (uint (window st ! (i + 5))))) = advance"
    by (simp only: u16_le_def u8_def)
  from assms(1,2,5) e1 e2 adv show ?thesis
    by (simp add: next_record_def Let_def)
qed

lemma marker_at_take: "j + 2 < k \<Longrightarrow> marker_at (take k xs) j = marker_at xs j"
  by (simp add: marker_at_def)

lemma u16_le_take: "j + 1 < k \<Longrightarrow> u16_le (take k xs) j = u16_le xs j"
  by (simp add: u16_le_def u8_def)

text \<open>
  The scan of a stream one byte longer than the window, made of a framed record, noise
  and a second framed record. The marker of the second record is found in the window,
  67 of its 68 bytes are there, and \<^verbatim>\<open>ensure_bytes(i + advance)\<close> compacts the window,
  reads the last byte and answers \<^verbatim>\<open>False\<close>, since \<open>i + advance\<close> still counts from the
  start of the window before the compaction. The loop is left; the second record is
  never emitted, and the first one is flushed with read type 2.
\<close>
lemma process_records_past_window:
  assumes r1: "framed r1" and r2: "framed r2" and noise: "\<not> contains_marker noise"
    and over: "length (r1 @ noise @ r2) = SCAN_CHUNK_SIZE * 2 + 1"
  shows "process_records_with emit (r1 @ noise @ r2) s = Some (emit (r1 @ [0, 0]) 2 s)"
proof -
  define data where "data = r1 @ noise @ r2"
  define C where "C = SCAN_CHUNK_SIZE * 2"
  define w where "w = take C data"
  define rest where "rest = drop C data"
  define i where "i = 68 + length noise"
  let ?st0 = "(initial_scan data)\<lparr>window := w, file_rest := rest\<rparr>"
  let ?st1 = "?st0\<lparr>scan_idx := 0 + 68\<rparr>"
  from r1 r2 have len: "length r1 = 68" "length r2 = 68" by (simp_all add: framed_def)
  have C: "C = 524288" by (simp add: C_def SCAN_CHUNK_SIZE_def)
  from over have ld: "length data = C + 1" by (simp add: data_def C_def)
  with len C have i: "i = 524221" by (simp add: i_def data_def)
  from ld have lw: "length w = C" by (simp add: w_def)
  from ld have lr: "length rest = 1" by (simp add: rest_def)
  have cap: "window_cap ?st0 = C" by (simp add: initial_scan_def C_def)
  have mk: "marker_at w j = marker_at data j" if "j + 2 < C" for j
    unfolding w_def using that by (rule marker_at_take)
  have u16: "u16_le w j = u16_le data j" if "j + 1 < C" for j
    unfolding w_def using that by (rule u16_le_take)
  \<comment> \<open>first round: the record at offset 0\<close>
  have "marker_at data 0"
    using framed_in_stream(1) [OF r1, of "[]" "noise @ r2"] by (simp add: data_def)
  with mk [of 0] C have m0: "marker_at w 0" by simp
  have "u16_le data (0 + 4) = 68"
    using framed_in_stream(2) [OF r1, of "[]" "noise @ r2"] by (simp add: data_def)
  with u16 [of "0 + 4"] C have s0: "u16_le w (0 + 4) = 68" by simp
  have f0: "find_marker (window ?st0) (scan_idx ?st0) = 0"
    using m0 lw C by (simp add: initial_scan_def find_marker_here)
  have n0': "next_record ?st0 = Some (Found ?st0 0 68)"
    using s0 lw C
    by (intro next_record_in_window [OF f0])
       (simp_all add: initial_scan_def MIN_RECORD_BYTES_def advance_of_68)
  have n0: "next_record (initial_scan data) = Some (Found ?st0 0 68)"
  proof -
    from lw C have "scan_idx ?st0 + 3 \<le> length (window ?st0)"
      by (simp add: initial_scan_def)
    then have "ensure_bytes (scan_idx ?st0 + 3) ?st0 = Some (True, ?st0)"
      by (rule ensure_bytes_enough)
    moreover from ld C have "3 \<le> length data" by simp
    then have "ensure_bytes (scan_idx (initial_scan data) + 3) (initial_scan data) =
        Some (True, ?st0)"
      using ensure_bytes_first_read [of data]
      by (simp add: initial_scan_def w_def rest_def C_def)
    ultimately have "next_record (initial_scan data) = next_record ?st0"
      by (simp add: next_record_def)
    with n0' show ?thesis by simp
  qed
  have "take 68 w = r1" using len C by (simp add: w_def data_def)
  with lw C have c0:
    "copy_record (replicate RECORD_BUFFER_SIZE 0) (window ?st0) 0 68 = r1 @ [0, 0]"
    using copy_record_eq [of 0 68 "replicate RECORD_BUFFER_SIZE 0" w]
    by (simp add: RECORD_BUFFER_SIZE_def numeral_2_eq_2)
  \<comment> \<open>second round: the record at offset \<open>i\<close> has its last byte outside the window\<close>
  have "marker_at data i"
    using framed_in_stream(1) [OF r2, of "r1 @ noise" "[]"] len by (simp add: data_def i_def)
  with mk [of i] C i have m1: "marker_at w i" by simp
  have "u16_le data (i + 4) = 68"
    using framed_in_stream(2) [OF r2, of "r1 @ noise" "[]"] len by (simp add: data_def i_def)
  with u16 [of "i + 4"] C i have s1: "u16_le w (i + 4) = 68" by simp
  have skip: "\<not> marker_at w j" if "68 \<le> j" "j < i" for j
  proof -
    from that i C have "j + 2 < C" by simp
    from mk [OF this] noise_then_record [OF noise r2, of r1 j "[]"] that len
    show ?thesis by (simp add: data_def i_def)
  qed
  have f1: "find_marker (window ?st1) (scan_idx ?st1) = i"
    using find_marker_skip [of 68 i w] skip m1 lw C i
    by (simp add: initial_scan_def)
  have "\<exists>st'. ensure_bytes (i + 68) ?st1 = Some (False, st')"
    using lw lr C i cap
    by (intro ensure_bytes_not_rebased) (auto simp: initial_scan_def)
  then obtain st' where e3: "ensure_bytes (i + 68) ?st1 = Some (False, st')" ..
  have n1: "next_record ?st1 = Some Stop"
    using s1 lw C i
    by (intro next_record_cut [OF f1 _ _ _ e3])
       (simp_all add: initial_scan_def MIN_RECORD_BYTES_def advance_of_68)
  have l1: "process_loop emit ?st1 rc lr lrp s' = Some (Inr (rc, lr, s'))" for rc lr lrp s'
    by (subst process_loop.simps) (simp only: n1 option.case scan_result.case)
  have l0: "process_loop emit (initial_scan data) 0 None (- 1) s =
      Some (Inr (0 + 1, Some (r1 @ [0, 0]), s))"
    by (subst process_loop.simps)
       (simp only: n0 option.case scan_result.case Let_def sum.case c0 l1)
  show ?thesis
    unfolding data_def [symmetric]
    by (simp only: process_records_with_def l0 sum.case option.case prod.case)
qed

lemma contains_marker_zero: "contains_marker (0 # xs) = contains_marker xs"
proof (cases xs)
  case (Cons b ys)
  then show ?thesis by (cases ys) simp_all
qed simp

lemma zeros_no_marker: "\<not> contains_marker (replicate n 0)"
  by (induction n) (simp_all add: contains_marker_zero)

text \<open>
  A stream of 524289 bytes, one more than the window holds: the sample record, 524153
  zero bytes, and the sample record again, which starts at the offset 524221.
\<close>
definition split_stream :: "byte list" where
  "split_stream = sample_record @ replicate 524153 0 @ sample_record"

text \<open>
  Claim C3, at an input the code fails on. The stream \<open>split_stream\<close> holds two records with
  their markers, at the offsets 0 and 524221. One-behind emission of these two candidates
  is the first record with read type 5 (the distance to its successor is 524221, not 68)
  and then the second, the last one, with read type 2. The code makes a single call of
  \<^verbatim>\<open>process_record\<close>, the first record with read type 2, and never emits the second: with
  the sample configuration one row is written and no record is counted as skipped.
\<close>
theorem record_past_window_not_emitted:
  "length split_stream = 524289 \<and>
   take 68 split_stream = sample_record \<and>
   take 68 (drop 524221 split_stream) = sample_record \<and>
   one_behind [(0, sample_record @ [0, 0]), (524221, sample_record @ [0, 0])] =
     [(sample_record @ [0, 0], 5), (sample_record @ [0, 0], 2)] \<and>
   process_records_with record_call split_stream [] = Some (Inr [(sample_record @ [0, 0], 2)]) \<and>
   process_records sample_config (2024, 3, 15) split_stream initial_reader =
     Some (Inr (\<lparr>is_kb_mode = False, records_processed = 1, records_skipped = 0,
                  record_counter = 1\<rparr>, [sample_row]))"
proof -
  have len: "length split_stream = 524289"
    by (simp add: split_stream_def sample_record_length)
  have over: "length (sample_record @ replicate 524153 0 @ sample_record) =
      SCAN_CHUNK_SIZE * 2 + 1"
    by (simp add: sample_record_length SCAN_CHUNK_SIZE_def)
  note scan = process_records_past_window [OF sample_framed sample_framed zeros_no_marker over]
  have first: "take 68 split_stream = sample_record"
    by (simp add: split_stream_def sample_record_length)
  have second: "take 68 (drop 524221 split_stream) = sample_record"
    by (simp add: split_stream_def sample_record_length)
  have claim: "one_behind [(0, sample_record @ [0, 0]), (524221, sample_record @ [0, 0])] =
      [(sample_record @ [0, 0], 5), (sample_record @ [0, 0], 2)]"
    by (simp add: one_behind_def)
  have calls: "process_records_with record_call split_stream [] =
      Some (Inr [(sample_record @ [0, 0], 2)])"
    using scan [of record_call "[]"] by (simp add: split_stream_def record_call_def)
  have rows: "process_records sample_config (2024, 3, 15) split_stream initial_reader =
      Some (Inr (\<lparr>is_kb_mode = False, records_processed = 1, records_skipped = 0,
                   record_counter = 1\<rparr>, [sample_row]))"
    using scan [of "process_record sample_config (2024, 3, 15)" initial_reader]
    by (simp add: split_stream_def process_records_def sample_process_record
          initial_reader_def)
  from len first second claim calls rows show ?thesis by (simp only: simp_thms)
qed

subsection \<open>Odd-tie rounding on exact values\<close>

text \<open>
  \<^verbatim>\<open>format_fixed_odd\<close> on the real numbers, where the products and quotients of the source
  are exact: the digits printed are those of the scaled absolute value rounded by the
  rule of the source, a tie (within \<^verbatim>\<open>1e-7\<close> of one half) going to the odd neighbour.
\<close>
lemma format_fixed_odd_rounding:
  "format_fixed_odd v d =
     format_f (v * 10 ^ d < 0)
       (nat (let a = \<bar>v * 10 ^ d\<bar>; fl = \<lfloor>a\<rfloor>; frac = a - of_int fl in
             if frac > 1 / 2 + 1 / 10 ^ 7 then fl + 1
             else if frac < 1 / 2 - 1 / 10 ^ 7 then fl
             else if fl mod 2 = 0 then fl + 1 else fl)) d"
  by (simp add: format_fixed_odd_def Let_def not_le)

lemma format_fixed_odd_ties:
  "format_fixed_odd (5 / 2) 0 = ''3''" "format_fixed_odd (7 / 2) 0 = ''3''"
proof -
  have "\<lfloor>5 / 2 :: real\<rfloor> = 2" "\<lfloor>7 / 2 :: real\<rfloor> = 3" by simp_all
  then have "format_fixed_odd (5 / 2) 0 = format_f False 3 0"
    "format_fixed_odd (7 / 2) 0 = format_f False 3 0"
    by (simp_all add: format_fixed_odd_def)
  moreover have "format_f False 3 0 = ''3''" by code_simp
  ultimately show "format_fixed_odd (5 / 2) 0 = ''3''" "format_fixed_odd (7 / 2) 0 = ''3''"
    by simp_all
qed

end
